theory Spec2Isabelle
  imports Main "HOL-Library.AList"
begin

section \<open>Data model of the lifecycle orchestrator\<close>

text \<open>
  The development follows \<^verbatim>\<open>packages/atlas/src/atlas.mjs\<close>. An \<^verbatim>\<open>Atlas\<close> object owns
  three catalogs of component containers (JavaScript \<^verbatim>\<open>Map\<close>s, which iterate in insertion
  order: association lists here), a registry of observers, the two flags \<^verbatim>\<open>prepared\<close> and
  \<^verbatim>\<open>started\<close>, and the two public objects \<^verbatim>\<open>services\<close> and \<^verbatim>\<open>actions\<close>.

  The containers' own \<^verbatim>\<open>prepare\<close>, \<^verbatim>\<open>start\<close> and \<^verbatim>\<open>stop\<close> methods run component code that is
  not part of \<^verbatim>\<open>atlas.mjs\<close>: what each call returns or throws is a parameter of the model
  (record \<open>behaviour\<close>), indexed by the kind and the alias under which the container is
  registered. Within one call of \<^verbatim>\<open>prepare\<close>, \<^verbatim>\<open>start\<close> or \<^verbatim>\<open>stop\<close> every container method and
  every hook handler is called at most once, so one \<open>behaviour\<close> per call of the orchestrator
  loses nothing; successive calls of the orchestrator take behaviours of their own.

  Every call made on a collaborator (a container, a hook handler, the logger) and every
  change of the public objects is appended to the field \<open>effects\<close>, in the order in which
  the orchestrator performs it: this is the instrumentation against which ordering
  properties are stated.

  Left out of the model: the configuration and the logger's own behaviour (a log call
  is recorded and returns), registration during a running lifecycle call (the catalogs are
  read, never written, by \<^verbatim>\<open>prepare\<close>, \<^verbatim>\<open>start\<close> and \<^verbatim>\<open>stop\<close>), and interleavings of
  promises other than the one fixed below for \<^verbatim>\<open>Promise.all\<close>.
\<close>

type_synonym aname = string

type_synonym inst = nat

text \<open>
  JavaScript throws, and rejects a promise with, any value. A \<^verbatim>\<open>FrameworkError\<close> and any
  other error object (\<open>Thrown\<close>, with its message) are truthy; a string that is thrown is
  truthy unless it is empty; \<^verbatim>\<open>undefined\<close> is falsy.
\<close>

datatype error = FrameworkError string | Thrown string | ThrownString string | ThrownUndefined

fun truthy :: "error \<Rightarrow> bool" where
  "truthy (FrameworkError m) = True"
| "truthy (Thrown m) = True"
| "truthy (ThrownString s) = (s \<noteq> [])"
| "truthy ThrownUndefined = False"

datatype outcome = Resolved | Rejected error

datatype kind = Hook | Service | Action

datatype phase = Prepare | Start | Stop

datatype lifecycle = AfterPrepare | BeforeStart | AfterStart | BeforeStop | AfterStop

datatype surface = Services | Actions

datatype level = Info | Fatal

datatype event =
    Invoked phase kind aname
  | Settled phase kind aname outcome
  | Notified lifecycle aname
  | Published surface aname inst
  | Unpublished surface aname
  | Logged level string "error option"

text \<open>
  Of a component class \<^verbatim>\<open>atlas.mjs\<close> reads the static \<^verbatim>\<open>observes\<close>; the static \<^verbatim>\<open>internal\<close> is
  declared in the typings of \<^verbatim>\<open>@atlas.js/component\<close>. A container gives access to its class as
  \<^verbatim>\<open>container.Component\<close>.
\<close>

record component_def =
  observes :: "string option"
  internal :: bool

record container =
  Component :: component_def

type_synonym catalog = "(aname \<times> container) list"

record atlas =
  env :: string
  root :: string
  prepared :: bool
  started :: bool
  cat_services :: catalog
  cat_hooks :: catalog
  cat_actions :: catalog
  observers :: catalog
  services :: "(aname \<times> inst) list"
  actions :: "(aname \<times> inst) list"
  effects :: "event list"

text \<open>
  The \<^verbatim>\<open>root\<close> option is a string or some other value; of a value that is not a string only
  its rendering in a template literal matters (\<^verbatim>\<open>undefined\<close>, \<^verbatim>\<open>null\<close>, \<^verbatim>\<open>42\<close>).
\<close>

datatype root_option = RootString string | RootOther string

record options =
  opt_env :: "string option"
  opt_root :: root_option

record behaviour =
  on_prepare :: "kind \<Rightarrow> aname \<Rightarrow> error + inst"
  on_start :: "kind \<Rightarrow> aname \<Rightarrow> outcome"
  on_stop :: "kind \<Rightarrow> aname \<Rightarrow> outcome"
  on_event :: "lifecycle \<Rightarrow> aname \<Rightarrow> outcome"

section \<open>The constructor\<close>

text \<open>
  \<^verbatim>\<open>options.env || process.env.NODE_ENV\<close>: an absent or empty \<^verbatim>\<open>options.env\<close> is falsy. The
  value of \<^verbatim>\<open>NODE_ENV\<close> is the first argument. The message about a root that is not a string
  ends with \<^verbatim>\<open>${options.root}\<close>. Building the configuration and the logger is left to helpers
  outside \<^verbatim>\<open>atlas.mjs\<close> and is not modelled.
\<close>

definition falsy :: "string option \<Rightarrow> bool" where
  "falsy s = (s = None \<or> s = Some [])"

definition constructor :: "string option \<Rightarrow> options \<Rightarrow> error + atlas" where
  "constructor node_env opts =
     (case (if falsy (opt_env opts) then node_env else opt_env opts) of
        None \<Rightarrow> Inl (FrameworkError ''env not specified and NODE_ENV was not set'')
      | Some e \<Rightarrow>
          if e = [] then Inl (FrameworkError ''env not specified and NODE_ENV was not set'')
          else
            (case opt_root opts of
               RootOther v \<Rightarrow>
                 Inl (FrameworkError (''root must be explicitly specified, got '' @ v))
             | RootString r \<Rightarrow>
                 Inr \<lparr>env = e, root = r, prepared = False, started = False,
                   cat_services = [], cat_hooks = [], cat_actions = [], observers = [],
                   services = [], actions = [], effects = []\<rparr>))"

section \<open>Helpers of the orchestrator\<close>

definition emit :: "event \<Rightarrow> atlas \<Rightarrow> atlas" where
  "emit e st = st\<lparr>effects := effects st @ [e]\<rparr>"

text \<open>Sequencing of awaited steps: a rejection ends the enclosing async function.\<close>

definition andthen :: "outcome \<times> atlas \<Rightarrow> (atlas \<Rightarrow> outcome \<times> atlas) \<Rightarrow> outcome \<times> atlas" where
  "andthen m f = (case m of (Resolved, st) \<Rightarrow> f st | (Rejected e, st) \<Rightarrow> (Rejected e, st))"

text \<open>
  Modelled from the spec: \<^verbatim>\<open>dispatch\<close> is imported from \<^verbatim>\<open>./private\<close>, which is not among the
  sources. The specification has a lifecycle event dispatched to the containers of the
  given map in registration order, each awaited before the next; a handler that throws
  rejects the awaited dispatch.
\<close>

fun dispatch :: "behaviour \<Rightarrow> lifecycle \<Rightarrow> catalog \<Rightarrow> atlas \<Rightarrow> outcome \<times> atlas" where
  "dispatch b ev [] st = (Resolved, st)"
| "dispatch b ev ((a, c) # hs) st =
     (case on_event b ev a of
        Resolved \<Rightarrow> dispatch b ev hs (emit (Notified ev a) st)
      | Rejected e \<Rightarrow> (Rejected e, emit (Notified ev a) st))"

text \<open>
  Modelled from the spec: \<^verbatim>\<open>expose\<close> is imported from \<^verbatim>\<open>./private\<close> as well. The specification
  has the instance published on the public surface under its alias unless the component's
  definition is marked internal.
\<close>

definition catalog_of :: "surface \<Rightarrow> atlas \<Rightarrow> catalog" where
  "catalog_of coll st = (case coll of Services \<Rightarrow> cat_services st | Actions \<Rightarrow> cat_actions st)"

definition publish :: "surface \<Rightarrow> aname \<Rightarrow> inst \<Rightarrow> atlas \<Rightarrow> atlas" where
  "publish coll a v st =
     emit (Published coll a v)
       (case coll of
          Services \<Rightarrow> st\<lparr>services := AList.update a v (services st)\<rparr>
        | Actions \<Rightarrow> st\<lparr>actions := AList.update a v (actions st)\<rparr>)"

definition expose :: "surface \<Rightarrow> aname \<Rightarrow> inst \<Rightarrow> atlas \<Rightarrow> atlas" where
  "expose coll a v st =
     (case map_of (catalog_of coll st) a of
        Some c \<Rightarrow> if internal (Component c) then st else publish coll a v st
      | None \<Rightarrow> publish coll a v st)"

text \<open>The statement \<^verbatim>\<open>delete this.services[alias]\<close> (and the same on \<^verbatim>\<open>this.actions\<close>).\<close>

definition unpublish :: "surface \<Rightarrow> aname \<Rightarrow> atlas \<Rightarrow> atlas" where
  "unpublish coll a st =
     emit (Unpublished coll a)
       (case coll of
          Services \<Rightarrow> st\<lparr>services := AList.delete a (services st)\<rparr>
        | Actions \<Rightarrow> st\<lparr>actions := AList.delete a (actions st)\<rparr>)"

text \<open>\<^verbatim>\<open>observers.set(alias, container)\<close>: a key already present keeps its position.\<close>

definition observe :: "aname \<Rightarrow> container \<Rightarrow> atlas \<Rightarrow> atlas" where
  "observe a c st = st\<lparr>observers := AList.update a c (observers st)\<rparr>"

subsection \<open>Calls on containers\<close>

definition call_result :: "behaviour \<Rightarrow> phase \<Rightarrow> kind \<Rightarrow> aname \<Rightarrow> outcome" where
  "call_result b ph k a =
     (case ph of
        Prepare \<Rightarrow> (case on_prepare b k a of Inl e \<Rightarrow> Rejected e | Inr v \<Rightarrow> Resolved)
      | Start \<Rightarrow> on_start b k a
      | Stop \<Rightarrow> on_stop b k a)"

definition tasks :: "kind \<Rightarrow> catalog \<Rightarrow> (kind \<times> aname) list" where
  "tasks k cat = map (\<lambda>(a, c). (k, a)) cat"

text \<open>\<^verbatim>\<open>[...Array.from(hooks), ...Array.from(actions)]\<close>, the batch of \<^verbatim>\<open>start\<close> and of \<^verbatim>\<open>stop\<close>.\<close>

definition hooks_and_actions :: "atlas \<Rightarrow> (kind \<times> aname) list" where
  "hooks_and_actions st = tasks Hook (cat_hooks st) @ tasks Action (cat_actions st)"

text \<open>
  \<^verbatim>\<open>Promise.all(array.map(f))\<close>: \<^verbatim>\<open>map\<close> calls the container method of every entry, in the
  order of the array, before anything is awaited (\<open>launch\<close>); then the promises settle. The
  order in which they settle is not fixed by the code: the model settles them in the order
  of the array, lets every one of them run to its end, and rejects the batch with the first
  rejection in that order.
\<close>

definition launch :: "phase \<Rightarrow> (kind \<times> aname) list \<Rightarrow> atlas \<Rightarrow> atlas" where
  "launch ph ts st = st\<lparr>effects := effects st @ map (\<lambda>(k, a). Invoked ph k a) ts\<rparr>"

fun join :: "(kind \<times> aname \<Rightarrow> atlas \<Rightarrow> outcome \<times> atlas) \<Rightarrow> (kind \<times> aname) list \<Rightarrow> atlas
    \<Rightarrow> outcome \<times> atlas" where
  "join f [] st = (Resolved, st)"
| "join f (t # ts) st =
     (case f t st of (r, st1) \<Rightarrow>
        case join f ts st1 of (rs, st2) \<Rightarrow>
          (case r of Resolved \<Rightarrow> (rs, st2) | Rejected e \<Rightarrow> (Rejected e, st2)))"

definition promise_all :: "(kind \<times> aname \<Rightarrow> atlas \<Rightarrow> outcome \<times> atlas) \<Rightarrow> phase
    \<Rightarrow> (kind \<times> aname) list \<Rightarrow> atlas \<Rightarrow> outcome \<times> atlas" where
  "promise_all f ph ts st = join f ts (launch ph ts st)"

text \<open>A task of the start and stop batches: \<^verbatim>\<open>container.start({ hooks })\<close>, \<^verbatim>\<open>container.stop()\<close>.\<close>

definition settle :: "behaviour \<Rightarrow> phase \<Rightarrow> kind \<times> aname \<Rightarrow> atlas \<Rightarrow> outcome \<times> atlas" where
  "settle b ph t st =
     (case t of (k, a) \<Rightarrow> (call_result b ph k a, emit (Settled ph k a (call_result b ph k a)) st))"

text \<open>
  A task of the prepare batches: \<^verbatim>\<open>container.prepare()\<close> for a hook, and
  \<^verbatim>\<open>this::expose(collection, alias, await container.prepare({ hooks }))\<close> for an action or a
  service.
\<close>

definition settle_prepare :: "behaviour \<Rightarrow> surface option \<Rightarrow> kind \<times> aname \<Rightarrow> atlas
    \<Rightarrow> outcome \<times> atlas" where
  "settle_prepare b coll t st =
     (case t of (k, a) \<Rightarrow>
        (case on_prepare b k a of
           Inl e \<Rightarrow> (Rejected e, emit (Settled Prepare k a (Rejected e)) st)
         | Inr v \<Rightarrow>
             (Resolved,
              (case coll of
                 None \<Rightarrow> emit (Settled Prepare k a Resolved) st
               | Some s \<Rightarrow> expose s a v (emit (Settled Prepare k a Resolved) st)))))"

section \<open>prepare\<close>

text \<open>
  Lines 342 to 351: the scan of the hook catalog. \<^verbatim>\<open>!container.Component.observes\<close> holds of
  an absent and of an empty declaration.
\<close>

definition no_observes :: "aname \<Rightarrow> error" where
  "no_observes a =
     FrameworkError (''Hook '' @ a @ '' does not have static '' @ [CHR 0x27] @ ''observes''
       @ [CHR 0x27] @ '' property'')"

fun scan_hooks :: "catalog \<Rightarrow> atlas \<Rightarrow> outcome \<times> atlas" where
  "scan_hooks [] st = (Resolved, st)"
| "scan_hooks ((a, c) # hs) st =
     (if falsy (observes (Component c)) then (Rejected (no_observes a), st)
      else scan_hooks hs (if observes (Component c) = Some ''atlas'' then observe a c st else st))"

definition prepare :: "behaviour \<Rightarrow> atlas \<Rightarrow> outcome \<times> atlas" where
  "prepare b st =
     (if prepared st then (Resolved, st)
      else
        andthen (scan_hooks (cat_hooks st) st) (\<lambda>st.
        andthen (promise_all (settle_prepare b None) Prepare (tasks Hook (cat_hooks st)) st) (\<lambda>st.
        andthen (promise_all (settle_prepare b (Some Actions)) Prepare
                   (tasks Action (cat_actions st)) st) (\<lambda>st.
        andthen (promise_all (settle_prepare b (Some Services)) Prepare
                   (tasks Service (cat_services st)) st) (\<lambda>st.
        dispatch b AfterPrepare (observers st) (st\<lparr>prepared := True\<rparr>))))))"

section \<open>stop\<close>

text \<open>Lines 425 to 430: the dispatch of \<^verbatim>\<open>beforeStop\<close> and the batch of hooks and actions.\<close>

definition stop_prologue :: "behaviour \<Rightarrow> atlas \<Rightarrow> outcome \<times> atlas" where
  "stop_prologue b st =
     andthen (dispatch b BeforeStop (observers st) st) (\<lambda>st.
       promise_all (settle b Stop) Stop (hooks_and_actions st) st)"

text \<open>
  Lines 432 to 446: the loop over the reversed service catalog. The second argument is the
  local variable \<^verbatim>\<open>error\<close>, \<open>None\<close> as long as nothing has been assigned to it.
\<close>

fun stop_services :: "behaviour \<Rightarrow> catalog \<Rightarrow> error option \<Rightarrow> atlas \<Rightarrow> error option \<times> atlas" where
  "stop_services b [] err st = (err, st)"
| "stop_services b ((a, c) # ss) err st =
     (let st1 = unpublish Services a st;
          st2 = emit (Invoked Stop Service a) st1;
          r = on_stop b Service a;
          st3 = emit (Settled Stop Service a r) st2
      in stop_services b ss (case r of Resolved \<Rightarrow> err | Rejected e \<Rightarrow> Some e) st3)"

text \<open>Lines 448 to 451.\<close>

fun unregister_actions :: "catalog \<Rightarrow> atlas \<Rightarrow> atlas" where
  "unregister_actions [] st = st"
| "unregister_actions ((a, c) # as) st = unregister_actions as (unpublish Actions a st)"

text \<open>
  Lines 460 to 464: \<^verbatim>\<open>if (error) { throw error }\<close> tests the value for truthiness, so that a
  falsy value that was caught is not thrown again.
\<close>

definition rethrown :: "error option \<Rightarrow> outcome" where
  "rethrown err =
     (case err of None \<Rightarrow> Resolved | Some e \<Rightarrow> if truthy e then Rejected e else Resolved)"

text \<open>Lines 432 to 464, entered once the prologue has resolved.\<close>

definition stop_body :: "behaviour \<Rightarrow> atlas \<Rightarrow> outcome \<times> atlas" where
  "stop_body b st =
     (case stop_services b (rev (cat_services st)) None st of (err, st1) \<Rightarrow>
        let st2 = unregister_actions (cat_actions st1) st1;
            st3 = st2\<lparr>started := False, prepared := False\<rparr>
        in andthen (dispatch b AfterStop (cat_hooks st3) st3) (\<lambda>st.
             let st4 = emit (Logged Info ''atlas:stopped'' None) st
             in (rethrown err, st4)))"

definition stop :: "behaviour \<Rightarrow> atlas \<Rightarrow> outcome \<times> atlas" where
  "stop b st = andthen (stop_prologue b st) (stop_body b)"

section \<open>start\<close>

text \<open>Lines 380 to 386: \<^verbatim>\<open>prepare\<close>, the dispatch of \<^verbatim>\<open>beforeStart\<close>, the batch of hooks and actions.\<close>

definition start_prologue :: "behaviour \<Rightarrow> atlas \<Rightarrow> outcome \<times> atlas" where
  "start_prologue b st =
     andthen (prepare b st) (\<lambda>st.
     andthen (dispatch b BeforeStart (observers st) st) (\<lambda>st.
       promise_all (settle b Start) Start (hooks_and_actions st) st))"

text \<open>
  Lines 397 to 399: the rollback. A rejection of \<^verbatim>\<open>this.stop()\<close> is caught and handed to
  \<^verbatim>\<open>log.fatal\<close>.
\<close>

definition rollback :: "behaviour \<Rightarrow> atlas \<Rightarrow> atlas" where
  "rollback b st =
     (case stop b st of
        (Resolved, st1) \<Rightarrow> st1
      | (Rejected stopErr, st1) \<Rightarrow>
          emit (Logged Fatal ''atlas:start:rollback-failure'' (Some stopErr)) st1)"

text \<open>Lines 392 to 404: the loop over the service catalog.\<close>

fun start_services :: "behaviour \<Rightarrow> catalog \<Rightarrow> atlas \<Rightarrow> outcome \<times> atlas" where
  "start_services b [] st = (Resolved, st)"
| "start_services b ((a, c) # ss) st =
     (let st1 = emit (Invoked Start Service a) st;
          r = on_start b Service a;
          st2 = emit (Settled Start Service a r) st1
      in case r of
           Resolved \<Rightarrow> start_services b ss st2
         | Rejected err \<Rightarrow> (Rejected err, rollback b st2))"

definition start :: "behaviour \<Rightarrow> atlas \<Rightarrow> outcome \<times> atlas" where
  "start b st =
     andthen (start_prologue b st) (\<lambda>st.
     andthen (start_services b (cat_services st) st) (\<lambda>st.
     andthen (dispatch b AfterStart (observers st) (st\<lparr>started := True\<rparr>)) (\<lambda>st.
       (Resolved, emit (Logged Info ''atlas:ready'' None) st))))"

section \<open>Vocabulary of the statements\<close>

subsection \<open>Outcomes of sequences of calls\<close>

text \<open>
  What a sequential dispatch delivers and returns, read off the handlers: the event reaches
  the containers up to and including the first whose handler rejects.
\<close>

fun delivered :: "behaviour \<Rightarrow> lifecycle \<Rightarrow> catalog \<Rightarrow> aname list" where
  "delivered b ev [] = []"
| "delivered b ev ((a, c) # hs) =
     a # (case on_event b ev a of Resolved \<Rightarrow> delivered b ev hs | Rejected e \<Rightarrow> [])"

fun dispatched :: "behaviour \<Rightarrow> lifecycle \<Rightarrow> catalog \<Rightarrow> outcome" where
  "dispatched b ev [] = Resolved"
| "dispatched b ev ((a, c) # hs) =
     (case on_event b ev a of Resolved \<Rightarrow> dispatched b ev hs | Rejected e \<Rightarrow> Rejected e)"

text \<open>The first rejection of a list of outcomes, and the elements up to the first rejection.\<close>

fun first_rejection :: "outcome list \<Rightarrow> outcome" where
  "first_rejection [] = Resolved"
| "first_rejection (Resolved # rs) = first_rejection rs"
| "first_rejection (Rejected e # rs) = Rejected e"

fun upto_rejection :: "('a \<Rightarrow> outcome) \<Rightarrow> 'a list \<Rightarrow> 'a list" where
  "upto_rejection f [] = []"
| "upto_rejection f (x # xs) =
     x # (case f x of Resolved \<Rightarrow> upto_rejection f xs | Rejected e \<Rightarrow> [])"

text \<open>
  The specification's words for the error that \<^verbatim>\<open>stop\<close> keeps: of the errors captured in
  one pass, the most recent one; none when nothing was captured.
\<close>

fun rejections :: "outcome list \<Rightarrow> error list" where
  "rejections [] = []"
| "rejections (Resolved # rs) = rejections rs"
| "rejections (Rejected e # rs) = e # rejections rs"

definition retained :: "outcome list \<Rightarrow> error option" where
  "retained rs = (if rejections rs = [] then None else Some (last (rejections rs)))"

subsection \<open>Effects of the service loops\<close>

definition service_start_events :: "behaviour \<Rightarrow> aname \<Rightarrow> event list" where
  "service_start_events b a =
     [Invoked Start Service a, Settled Start Service a (on_start b Service a)]"

definition service_stop_events :: "behaviour \<Rightarrow> aname \<Rightarrow> event list" where
  "service_stop_events b a =
     [Unpublished Services a, Invoked Stop Service a, Settled Stop Service a (on_stop b Service a)]"

text \<open>A public object with the given keys deleted.\<close>

definition without :: "aname list \<Rightarrow> (aname \<times> inst) list \<Rightarrow> (aname \<times> inst) list" where
  "without as m = filter (\<lambda>p. fst p \<notin> set as) m"

subsection \<open>Views of the recorded effects\<close>

fun notification :: "lifecycle \<Rightarrow> event \<Rightarrow> bool" where
  "notification ev (Notified ev' a) = (ev' = ev)"
| "notification ev e = False"

fun service_call :: "phase \<Rightarrow> event \<Rightarrow> bool" where
  "service_call ph (Invoked ph' k a) = (ph' = ph \<and> k = Service)"
| "service_call ph (Settled ph' k a r) = (ph' = ph \<and> k = Service)"
| "service_call ph e = False"

fun service_stop_step :: "event \<Rightarrow> bool" where
  "service_stop_step (Unpublished s a) = (s = Services)"
| "service_stop_step e = service_call Stop e"

text \<open>The effects that preparing the containers can have, and those of \<^verbatim>\<open>prepare\<close> as a whole.\<close>

fun preparing :: "event \<Rightarrow> bool" where
  "preparing (Invoked ph k a) = (ph = Prepare)"
| "preparing (Settled ph k a r) = (ph = Prepare)"
| "preparing (Published s a v) = True"
| "preparing e = False"

definition prepare_event :: "event \<Rightarrow> bool" where
  "prepare_event e \<longleftrightarrow> preparing e \<or> notification AfterPrepare e"

text \<open>What the batches of \<^verbatim>\<open>prepare\<close> leave alone and what they may add.\<close>

definition prepares :: "atlas \<Rightarrow> atlas \<Rightarrow> bool" where
  "prepares st st' \<longleftrightarrow>
     cat_services st' = cat_services st \<and> cat_hooks st' = cat_hooks st
     \<and> cat_actions st' = cat_actions st \<and> observers st' = observers st
     \<and> prepared st' = prepared st \<and> started st' = started st
     \<and> (\<exists>evs. effects st' = effects st @ evs \<and> list_all preparing evs)
     \<and> fst ` set (services st') \<subseteq> fst ` set (services st) \<union> fst ` set (cat_services st)
     \<and> fst ` set (actions st') \<subseteq> fst ` set (actions st) \<union> fst ` set (cat_actions st)"

text \<open>The hooks that declare \<^verbatim>\<open>observes = 'atlas'\<close>, in catalog order.\<close>

definition self_observers :: "atlas \<Rightarrow> aname list" where
  "self_observers st =
     map fst (filter (\<lambda>(a, c). observes (Component c) = Some ''atlas'') (cat_hooks st))"

subsection \<open>A small application\<close>

text \<open>
  Two hooks, of which only \<^verbatim>\<open>audit\<close> observes the orchestrator, one action and two services,
  registered in this order on a fresh instance.
\<close>

definition plain :: "string option \<Rightarrow> container" where
  "plain obs = \<lparr>Component = \<lparr>observes = obs, internal = False\<rparr>\<rparr>"

definition demo :: atlas where
  "demo = \<lparr>env = ''test'', root = ''/srv/app'', prepared = False, started = False,
     cat_services = [(''db'', plain None), (''http'', plain None)],
     cat_hooks = [(''audit'', plain (Some ''atlas'')), (''metrics'', plain (Some ''service:db''))],
     cat_actions = [(''ping'', plain None)],
     observers = [], services = [], actions = [], effects = []\<rparr>"

text \<open>Components that never throw; an instance is stood for by a number.\<close>

definition calm :: behaviour where
  "calm = \<lparr>on_prepare = (\<lambda>k a. Inr (length a)), on_start = (\<lambda>k a. Resolved),
     on_stop = (\<lambda>k a. Resolved), on_event = (\<lambda>ev a. Resolved)\<rparr>"

text \<open>The application after a start with such components.\<close>

definition running :: atlas where
  "running = snd (start calm demo)"

text \<open>The service \<^verbatim>\<open>http\<close> fails to start, and \<^verbatim>\<open>db\<close> fails to stop during the rollback.\<close>

definition port_taken :: behaviour where
  "port_taken = calm\<lparr>
     on_start := (\<lambda>k a. if k = Service \<and> a = ''http'' then Rejected (Thrown ''EADDRINUSE'')
                          else Resolved),
     on_stop := (\<lambda>k a. if k = Service \<and> a = ''db'' then Rejected (Thrown ''db is busy'')
                         else Resolved)\<rparr>"

text \<open>Both services fail to stop, each with an error of its own.\<close>

definition stubborn :: behaviour where
  "stubborn = calm\<lparr>
     on_stop := (\<lambda>k a. if k = Service then Rejected (Thrown (''cannot stop '' @ a))
                         else Resolved)\<rparr>"


text \<open>
  The service \<^verbatim>\<open>http\<close> fails to stop with an error object; then \<^verbatim>\<open>db\<close>, the last to be
  stopped, rejects with \<^verbatim>\<open>undefined\<close>.
\<close>

definition silent :: behaviour where
  "silent = calm\<lparr>
     on_stop := (\<lambda>k a. if k = Service \<and> a = ''http'' then Rejected (Thrown ''cannot stop http'')
                         else if k = Service \<and> a = ''db'' then Rejected ThrownUndefined
                         else Resolved)\<rparr>"

text \<open>The hook \<^verbatim>\<open>audit\<close> fails to stop.\<close>

definition hook_stuck :: behaviour where
  "hook_stuck = calm\<lparr>
     on_stop := (\<lambda>k a. if k = Hook \<and> a = ''audit'' then Rejected (Thrown ''audit cannot stop'')
                         else Resolved)\<rparr>"


section \<open>Auxiliary lemmas\<close>

subsection \<open>Basic facts\<close>

lemma call_result_simps [simp]:
  "call_result b Start = on_start b" "call_result b Stop = on_stop b"
  by (auto simp: call_result_def fun_eq_iff)

lemma emit_fields [simp]:
  "env (emit e st) = env st" "root (emit e st) = root st"
  "prepared (emit e st) = prepared st" "started (emit e st) = started st"
  "cat_services (emit e st) = cat_services st" "cat_hooks (emit e st) = cat_hooks st"
  "cat_actions (emit e st) = cat_actions st" "observers (emit e st) = observers st"
  "services (emit e st) = services st" "actions (emit e st) = actions st"
  "effects (emit e st) = effects st @ [e]"
  by (simp_all add: emit_def)

lemma hooks_and_actions_update [simp]:
  "hooks_and_actions (st\<lparr>effects := evs\<rparr>) = hooks_and_actions st"
  "hooks_and_actions (st\<lparr>started := x\<rparr>) = hooks_and_actions st"
  "hooks_and_actions (st\<lparr>prepared := x\<rparr>) = hooks_and_actions st"
  by (simp_all add: hooks_and_actions_def)

lemma tasks_names [simp]: "snd ` set (tasks k cat) = fst ` set cat"
  by (force simp: tasks_def)


subsection \<open>Dispatch and batches\<close>

lemma dispatch_eq:
  "dispatch b ev hs st =
     (dispatched b ev hs, st\<lparr>effects := effects st @ map (Notified ev) (delivered b ev hs)\<rparr>)"
  by (induction hs arbitrary: st) (auto simp: emit_def split: outcome.splits)

lemma first_rejection_Resolved:
  "(first_rejection rs = Resolved) = (\<forall>r\<in>set rs. r = Resolved)"
  by (induction rs rule: first_rejection.induct) auto

lemma dispatched_Resolved:
  "(dispatched b ev hs = Resolved) = (\<forall>a\<in>fst ` set hs. on_event b ev a = Resolved)"
  by (induction hs) (auto split: outcome.splits)

lemma delivered_all:
  "dispatched b ev hs = Resolved \<Longrightarrow> delivered b ev hs = map fst hs"
  by (induction hs) (auto split: outcome.splits)

lemma join_settle_eq:
  "join (settle b ph) ts st =
     (first_rejection (map (\<lambda>(k, a). call_result b ph k a) ts),
      st\<lparr>effects := effects st @ map (\<lambda>(k, a). Settled ph k a (call_result b ph k a)) ts\<rparr>)"
  by (induction ts arbitrary: st) (auto simp: emit_def settle_def split: outcome.splits prod.splits)

lemma promise_all_settle_eq:
  "promise_all (settle b ph) ph ts st =
     (first_rejection (map (\<lambda>(k, a). call_result b ph k a) ts),
      st\<lparr>effects := effects st @ map (\<lambda>(k, a). Invoked ph k a) ts
         @ map (\<lambda>(k, a). Settled ph k a (call_result b ph k a)) ts\<rparr>)"
  by (simp add: promise_all_def launch_def join_settle_eq)

lemma settled_all:
  assumes "first_rejection (map (\<lambda>(k, a). call_result b ph k a) ts) = Resolved"
  shows "map (\<lambda>(k, a). Settled ph k a (call_result b ph k a)) ts
    = map (\<lambda>(k, a). Settled ph k a Resolved) ts"
proof -
  from assms have "\<And>k a. (k, a) \<in> set ts \<Longrightarrow> call_result b ph k a = Resolved"
    unfolding first_rejection_Resolved by auto
  then show ?thesis by auto
qed

lemma settled_Resolved:
  assumes "first_rejection (map (\<lambda>(k, a). f k a) ts) = Resolved"
  shows "map (\<lambda>(k, a). Settled ph k a (f k a)) ts = map (\<lambda>(k, a). Settled ph k a Resolved) ts"
proof -
  from assms have "\<And>k a. (k, a) \<in> set ts \<Longrightarrow> f k a = Resolved"
    unfolding first_rejection_Resolved by auto
  then show ?thesis by auto
qed

lemma upto_rejection_all:
  "first_rejection (map f xs) = Resolved \<Longrightarrow> upto_rejection f xs = xs"
  by (induction xs) (auto split: outcome.splits)

lemma upto_rejection_prefix:
  assumes "\<forall>x\<in>set pre. f x = Resolved" and "f a = Rejected e"
  shows "upto_rejection f (pre @ a # post) = pre @ [a]"
    and "first_rejection (map f (pre @ a # post)) = Rejected e"
  using assms by (induction pre) auto


subsection \<open>Deleting keys\<close>

lemma without_Nil [simp]: "without [] m = m"
  by (simp add: without_def)

lemma delete_is_without: "AList.delete a m = without [a] m"
  by (induction m) (auto simp: without_def)

lemma without_without: "without as (without bs m) = without (bs @ as) m"
  by (auto simp: without_def intro: filter_cong)

lemma without_rev [simp]: "without (rev as) m = without as m"
  by (simp add: without_def)

lemma keys_without: "fst ` set (without as m) = fst ` set m - set as"
  by (auto simp: without_def)

lemma without_empty: "fst ` set m \<subseteq> set as \<Longrightarrow> without as m = []"
  by (auto simp: without_def filter_empty_conv)

lemma update_fresh: "a \<notin> fst ` set al \<Longrightarrow> AList.update a v al = al @ [(a, v)]"
  by (induction al) auto


subsection \<open>Retained errors\<close>

lemma rejections_append [simp]: "rejections (xs @ ys) = rejections xs @ rejections ys"
  by (induction xs rule: rejections.induct) auto



lemma rethrown_simps [simp]:
  "rethrown None = Resolved"
  "truthy e \<Longrightarrow> rethrown (Some e) = Rejected e"
  "\<not> truthy e \<Longrightarrow> rethrown (Some e) = Resolved"
  by (simp_all add: rethrown_def)



subsection \<open>Views of effects\<close>

lemma task_events_filtered [simp]:
  "filter (service_call ph) (map (\<lambda>(k, a). Invoked ph' k a) (hooks_and_actions st)) = []"
  "filter (service_call ph) (map (\<lambda>(k, a). Settled ph' k a (f k a)) (hooks_and_actions st)) = []"
  "filter (notification ev) (map (\<lambda>(k, a). Invoked ph' k a) ts) = []"
  "filter (notification ev) (map (\<lambda>(k, a). Settled ph' k a (f k a)) ts) = []"
  "filter service_stop_step (map (\<lambda>(k, a). Invoked ph' k a) (hooks_and_actions st)) = []"
  "filter service_stop_step (map (\<lambda>(k, a). Settled ph' k a (f k a)) (hooks_and_actions st)) = []"
  by (auto simp: filter_empty_conv hooks_and_actions_def tasks_def)

lemma notified_filtered [simp]:
  "filter (service_call ph) (map (Notified ev) as) = []"
  "filter service_stop_step (map (Notified ev) as) = []"
  "filter (notification ev) (map (Notified ev) as) = map (Notified ev) as"
  "ev' \<noteq> ev \<Longrightarrow> filter (notification ev') (map (Notified ev) as) = []"
  by (auto simp: filter_empty_conv filter_id_conv)

lemma unregistered_filtered [simp]:
  "filter (service_call ph) (map (\<lambda>(a, c). Unpublished Actions a) as) = []"
  "filter service_stop_step (map (\<lambda>(a, c). Unpublished Actions a) as) = []"
  "filter (notification ev) (map (\<lambda>(a, c). Unpublished Actions a) as) = []"
  by (auto simp: filter_empty_conv)

lemma service_stop_filtered [simp]:
  "filter (service_call Stop) (concat (map (\<lambda>(a, c). service_stop_events b a) ss)) =
     concat (map (\<lambda>(a, c). [Invoked Stop Service a, Settled Stop Service a (on_stop b Service a)]) ss)"
  "filter (service_call Start) (concat (map (\<lambda>(a, c). service_stop_events b a) ss)) = []"
  "filter service_stop_step (concat (map (\<lambda>(a, c). service_stop_events b a) ss)) =
     concat (map (\<lambda>(a, c). service_stop_events b a) ss)"
  "filter (notification ev) (concat (map (\<lambda>(a, c). service_stop_events b a) ss)) = []"
  by (induction ss) (auto simp: service_stop_events_def)

lemma start_chunks_filtered [simp]:
  "filter (service_call Start)
     (concat (map (\<lambda>(a, c). [Invoked Start Service a, Settled Start Service a r]) ss))
   = concat (map (\<lambda>(a, c). [Invoked Start Service a, Settled Start Service a r]) ss)"
  "filter (notification ev)
     (concat (map (\<lambda>(a, c). [Invoked Start Service a, Settled Start Service a r]) ss)) = []"
  by (induction ss) auto

lemma start_events_filtered [simp]:
  "filter (service_call Start) (concat (map (service_start_events b) as))
   = concat (map (service_start_events b) as)"
  by (induction as) (auto simp: service_start_events_def)

lemma start_events_filtered_comp [simp]:
  "filter (service_call Start) (service_start_events b a) = service_start_events b a"
  "filter (service_call Start) (concat (map (service_start_events b \<circ> f) xs))
   = concat (map (service_start_events b \<circ> f) xs)"
  by (induction xs) (auto simp: service_start_events_def)

lemma preparing_cases:
  assumes "preparing e"
  shows "(\<exists>k a. e = Invoked Prepare k a) \<or> (\<exists>k a r. e = Settled Prepare k a r)
    \<or> (\<exists>s a v. e = Published s a v)"
  using assms by (cases e) simp_all

lemma preparing_filtered:
  assumes "preparing e"
  shows "\<not> service_call Start e" "\<not> service_call Stop e" "\<not> service_stop_step e"
    "\<not> notification ev e"
  using preparing_cases [OF assms] by auto

lemma prepare_event_filtered:
  assumes "prepare_event e"
  shows "\<not> service_call Start e" "\<not> service_call Stop e" "\<not> service_stop_step e"
    "ev \<noteq> AfterPrepare \<Longrightarrow> \<not> notification ev e"
proof -
  from assms consider "preparing e" | a where "e = Notified AfterPrepare a"
    unfolding prepare_event_def by (cases e) auto
  then show "\<not> service_call Start e" by cases (auto dest: preparing_filtered)
  from assms consider "preparing e" | a where "e = Notified AfterPrepare a"
    unfolding prepare_event_def by (cases e) auto
  then show "\<not> service_call Stop e" by cases (auto dest: preparing_filtered)
  from assms consider "preparing e" | a where "e = Notified AfterPrepare a"
    unfolding prepare_event_def by (cases e) auto
  then show "\<not> service_stop_step e" by cases (auto dest: preparing_filtered)
  from assms consider "preparing e" | a where "e = Notified AfterPrepare a"
    unfolding prepare_event_def by (cases e) auto
  then show "ev \<noteq> AfterPrepare \<Longrightarrow> \<not> notification ev e"
    by cases (auto dest: preparing_filtered)
qed


subsection \<open>The stop sequence\<close>

lemma stop_services_eq:
  "stop_services b ss err st =
     (case retained (map (\<lambda>(a, c). on_stop b Service a) ss) of None \<Rightarrow> err | Some e \<Rightarrow> Some e,
      st\<lparr>services := without (map fst ss) (services st),
         effects := effects st @ concat (map (\<lambda>(a, c). service_stop_events b a) ss)\<rparr>)"
proof (induction ss arbitrary: err st)
  case Nil
  show ?case by (simp add: retained_def)
next
  case (Cons s ss)
  obtain a c where s: "s = (a, c)" by (cases s)
  show ?case
    by (cases "on_stop b Service a")
       (simp_all add: s Cons.IH unpublish_def emit_def service_stop_events_def retained_def
          delete_is_without without_without)
qed

lemma unregister_actions_eq:
  "unregister_actions as st =
     st\<lparr>actions := without (map fst as) (actions st),
        effects := effects st @ map (\<lambda>(a, c). Unpublished Actions a) as\<rparr>"
proof (induction as arbitrary: st)
  case Nil
  show ?case by simp
next
  case (Cons s as)
  obtain a c where s: "s = (a, c)" by (cases s)
  show ?case
    by (simp add: s Cons.IH unpublish_def emit_def delete_is_without without_without)
qed

lemma stop_body_eq:
  "stop_body b st =
     (let st' = st\<lparr>prepared := False, started := False,
            services := without (map fst (cat_services st)) (services st),
            actions := without (map fst (cat_actions st)) (actions st),
            effects := effects st
              @ concat (map (\<lambda>(a, c). service_stop_events b a) (rev (cat_services st)))
              @ map (\<lambda>(a, c). Unpublished Actions a) (cat_actions st)
              @ map (Notified AfterStop) (delivered b AfterStop (cat_hooks st))\<rparr>
      in case dispatched b AfterStop (cat_hooks st) of
           Rejected e \<Rightarrow> (Rejected e, st')
         | Resolved \<Rightarrow>
             (rethrown (retained (map (\<lambda>(a, c). on_stop b Service a) (rev (cat_services st)))),
              emit (Logged Info ''atlas:stopped'' None) st'))"
  by (simp add: stop_body_def stop_services_eq unregister_actions_eq dispatch_eq andthen_def
        Let_def emit_def rev_map [symmetric] split: outcome.splits option.splits)

lemma stop_prologue_eq:
  "stop_prologue b st =
     (case dispatched b BeforeStop (observers st) of
        Rejected e \<Rightarrow>
          (Rejected e,
           st\<lparr>effects := effects st
              @ map (Notified BeforeStop) (delivered b BeforeStop (observers st))\<rparr>)
      | Resolved \<Rightarrow>
          (first_rejection (map (\<lambda>(k, a). call_result b Stop k a) (hooks_and_actions st)),
           st\<lparr>effects := effects st
              @ map (Notified BeforeStop) (delivered b BeforeStop (observers st))
              @ map (\<lambda>(k, a). Invoked Stop k a) (hooks_and_actions st)
              @ map (\<lambda>(k, a). Settled Stop k a (call_result b Stop k a)) (hooks_and_actions st)\<rparr>))"
  by (simp add: stop_prologue_def dispatch_eq andthen_def promise_all_settle_eq hooks_and_actions_def
        split: outcome.splits)

lemma stop_prologue_Resolved:
  assumes "fst (stop_prologue b st) = Resolved"
  shows "stop_prologue b st =
     (Resolved, st\<lparr>effects := effects st
        @ map (Notified BeforeStop) (map fst (observers st))
        @ map (\<lambda>(k, a). Invoked Stop k a) (hooks_and_actions st)
        @ map (\<lambda>(k, a). Settled Stop k a Resolved) (hooks_and_actions st)\<rparr>)"
proof (cases "dispatched b BeforeStop (observers st)")
  case (Rejected e)
  with assms show ?thesis by (simp add: stop_prologue_eq)
next
  case Resolved
  with assms have r:
    "first_rejection (map (\<lambda>(k, a). call_result b Stop k a) (hooks_and_actions st)) = Resolved"
    by (simp add: stop_prologue_eq)
  show ?thesis
    unfolding stop_prologue_eq Resolved outcome.case r settled_all [OF r]
      delivered_all [OF Resolved] ..
qed

lemma stop_effects:
  assumes "fst (stop_prologue b st) = Resolved"
  shows "effects (snd (stop b st)) =
     effects st
     @ map (Notified BeforeStop) (map fst (observers st))
     @ map (\<lambda>(k, a). Invoked Stop k a) (hooks_and_actions st)
     @ map (\<lambda>(k, a). Settled Stop k a Resolved) (hooks_and_actions st)
     @ concat (map (\<lambda>(a, c). service_stop_events b a) (rev (cat_services st)))
     @ map (\<lambda>(a, c). Unpublished Actions a) (cat_actions st)
     @ map (Notified AfterStop) (delivered b AfterStop (cat_hooks st))
     @ (case dispatched b AfterStop (cat_hooks st) of
          Resolved \<Rightarrow> [Logged Info ''atlas:stopped'' None] | Rejected e \<Rightarrow> [])"
  by (simp add: stop_def stop_prologue_Resolved [OF assms] andthen_def stop_body_eq Let_def
        emit_def split: outcome.splits)

lemma stop_fields:
  assumes "fst (stop_prologue b st) = Resolved"
  shows "prepared (snd (stop b st)) = False" "started (snd (stop b st)) = False"
    "services (snd (stop b st)) = without (map fst (cat_services st)) (services st)"
    "actions (snd (stop b st)) = without (map fst (cat_actions st)) (actions st)"
    "cat_services (snd (stop b st)) = cat_services st"
    "cat_hooks (snd (stop b st)) = cat_hooks st"
    "cat_actions (snd (stop b st)) = cat_actions st"
    "observers (snd (stop b st)) = observers st"
  by (simp_all add: stop_def stop_prologue_Resolved [OF assms] andthen_def stop_body_eq Let_def
        emit_def split: outcome.splits)


lemma stop_filter_start [simp]:
  "filter (service_call Start) (effects (snd (stop b st))) = filter (service_call Start) (effects st)"
  by (simp add: stop_def stop_prologue_eq stop_body_eq andthen_def Let_def emit_def
        split: outcome.splits option.splits)

lemma rollback_filter_start [simp]:
  "filter (service_call Start) (effects (rollback b st)) = filter (service_call Start) (effects st)"
proof -
  have "effects (rollback b st) = effects (snd (stop b st))
      \<or> (\<exists>e. effects (rollback b st)
            = effects (snd (stop b st)) @ [Logged Fatal ''atlas:start:rollback-failure'' (Some e)])"
    by (cases "stop b st") (auto simp: rollback_def split: outcome.splits)
  then show ?thesis by auto
qed


subsection \<open>The prepare sequence\<close>

lemma prepares_refl [simp]: "prepares st st"
  by (simp add: prepares_def)

lemma preparesD:
  assumes "prepares st st'"
  shows "cat_services st' = cat_services st" "cat_hooks st' = cat_hooks st"
    "cat_actions st' = cat_actions st" "observers st' = observers st"
    "prepared st' = prepared st" "started st' = started st"
    "\<exists>evs. effects st' = effects st @ evs \<and> list_all preparing evs"
    "fst ` set (services st') \<subseteq> fst ` set (services st) \<union> fst ` set (cat_services st)"
    "fst ` set (actions st') \<subseteq> fst ` set (actions st) \<union> fst ` set (cat_actions st)"
  using assms unfolding prepares_def by blast+

lemma prepares_trans:
  assumes 1: "prepares st st1" and 2: "prepares st1 st2"
  shows "prepares st st2"
proof -
  from preparesD(7) [OF 1] obtain evs1
    where e1: "effects st1 = effects st @ evs1" "list_all preparing evs1" by blast
  from preparesD(7) [OF 2] obtain evs2
    where e2: "effects st2 = effects st1 @ evs2" "list_all preparing evs2" by blast
  have "effects st2 = effects st @ (evs1 @ evs2)" "list_all preparing (evs1 @ evs2)"
    using e1 e2 by simp_all
  then have e: "\<exists>evs. effects st2 = effects st @ evs \<and> list_all preparing evs"
    by blast
  have s: "fst ` set (services st2) \<subseteq> fst ` set (services st) \<union> fst ` set (cat_services st)"
    using preparesD(8) [OF 1] preparesD(8) [OF 2] unfolding preparesD(1) [OF 1] by blast
  have a: "fst ` set (actions st2) \<subseteq> fst ` set (actions st) \<union> fst ` set (cat_actions st)"
    using preparesD(9) [OF 1] preparesD(9) [OF 2] unfolding preparesD(3) [OF 1] by blast
  show ?thesis
    unfolding prepares_def
    using e s a preparesD(1-6) [OF 1] preparesD(1-6) [OF 2] by (intro conjI) simp_all
qed

lemma prepares_emit: "preparing e \<Longrightarrow> prepares st (emit e st)"
  by (simp add: prepares_def)

lemma prepares_launch: "prepares st (launch Prepare ts st)"
  by (auto simp: prepares_def launch_def list_all_iff)

lemma prepares_expose:
  "a \<in> fst ` set (catalog_of coll st) \<Longrightarrow> prepares st (expose coll a v st)"
  by (cases coll)
     (auto simp: prepares_def expose_def publish_def emit_def catalog_of_def dom_update
        split: option.splits)

lemma prepares_settle:
  assumes "case coll of None \<Rightarrow> True | Some s \<Rightarrow> snd t \<in> fst ` set (catalog_of s st)"
  shows "prepares st (snd (settle_prepare b coll t st))"
proof -
  obtain k a where t: "t = (k, a)" by (cases t)
  show ?thesis
  proof (cases "on_prepare b k a")
    case (Inl e)
    then show ?thesis by (simp add: settle_prepare_def t prepares_emit)
  next
    case (Inr v)
    show ?thesis
    proof (cases coll)
      case None
      with Inr show ?thesis by (simp add: settle_prepare_def t prepares_emit)
    next
      case (Some s)
      with assms t have "a \<in> fst ` set (catalog_of s (emit (Settled Prepare k a Resolved) st))"
        by (simp add: catalog_of_def split: surface.splits)
      from prepares_trans [OF prepares_emit prepares_expose [OF this]]
      show ?thesis using Inr Some by (simp add: settle_prepare_def t)
    qed
  qed
qed

lemma prepares_catalog_of: "prepares st st' \<Longrightarrow> catalog_of s st' = catalog_of s st"
  by (simp add: prepares_def catalog_of_def split: surface.splits)

lemma join_snd: "snd (join f (t # ts) st) = snd (join f ts (snd (f t st)))"
  by (simp split: prod.splits outcome.splits)

lemma prepares_join:
  assumes "case coll of None \<Rightarrow> True | Some s \<Rightarrow> snd ` set ts \<subseteq> fst ` set (catalog_of s st)"
  shows "prepares st (snd (join (settle_prepare b coll) ts st))"
  using assms
proof (induction ts arbitrary: st)
  case Nil
  show ?case by simp
next
  case (Cons t ts)
  let ?st1 = "snd (settle_prepare b coll t st)"
  have 1: "prepares st ?st1"
    by (rule prepares_settle) (use Cons.prems in \<open>auto split: option.splits\<close>)
  have 2: "prepares ?st1 (snd (join (settle_prepare b coll) ts ?st1))"
    by (rule Cons.IH) (use Cons.prems prepares_catalog_of [OF 1] in \<open>auto split: option.splits\<close>)
  from prepares_trans [OF 1 2] show ?case
    by (simp only: join_snd)
qed

lemma prepares_promise_all:
  assumes "case coll of None \<Rightarrow> True | Some s \<Rightarrow> snd ` set ts \<subseteq> fst ` set (catalog_of s st)"
  shows "prepares st (snd (promise_all (settle_prepare b coll) Prepare ts st))"
  unfolding promise_all_def
  by (rule prepares_trans [OF prepares_launch prepares_join])
     (use assms prepares_catalog_of [OF prepares_launch] in \<open>auto split: option.splits\<close>)

lemma scan_hooks_frame: "\<exists>obs. snd (scan_hooks hs st) = st\<lparr>observers := obs\<rparr>"
proof (induction hs arbitrary: st)
  case Nil
  have "st = st\<lparr>observers := observers st\<rparr>" by simp
  then show ?case by (auto intro: exI [of _ "observers st"])
next
  case (Cons h hs)
  obtain a c where h: "h = (a, c)" by (cases h)
  have st: "st = st\<lparr>observers := observers st\<rparr>" by simp
  show ?case
  proof (cases "falsy (observes (Component c))")
    case True
    with st show ?thesis by (auto simp: h intro: exI [of _ "observers st"])
  next
    case False
    let ?st1 = "if observes (Component c) = Some ''atlas'' then observe a c st else st"
    from Cons.IH [of ?st1] obtain obs where "snd (scan_hooks hs ?st1) = ?st1\<lparr>observers := obs\<rparr>" ..
    with False have "snd (scan_hooks (h # hs) st) = st\<lparr>observers := obs\<rparr>"
      by (simp add: h observe_def)
    then show ?thesis ..
  qed
qed

lemma scan_hooks_fields [simp]:
  "cat_services (snd (scan_hooks hs st)) = cat_services st"
  "cat_hooks (snd (scan_hooks hs st)) = cat_hooks st"
  "cat_actions (snd (scan_hooks hs st)) = cat_actions st"
  "prepared (snd (scan_hooks hs st)) = prepared st"
  "started (snd (scan_hooks hs st)) = started st"
  "services (snd (scan_hooks hs st)) = services st"
  "actions (snd (scan_hooks hs st)) = actions st"
  "effects (snd (scan_hooks hs st)) = effects st"
  using scan_hooks_frame [of hs st] by auto


lemma scan_hooks_observers:
  assumes "fst (scan_hooks hs st) = Resolved" and "distinct (map fst hs)"
    and "fst ` set (observers st) \<inter> fst ` set hs = {}"
  shows "observers (snd (scan_hooks hs st)) =
    observers st @ filter (\<lambda>(a, c). observes (Component c) = Some ''atlas'') hs"
  using assms
proof (induction hs arbitrary: st)
  case Nil
  show ?case by simp
next
  case (Cons h hs)
  obtain a c where h: "h = (a, c)" by (cases h)
  from Cons.prems(1) have nf: "\<not> falsy (observes (Component c))"
    by (auto simp: h split: if_splits)
  have fresh: "a \<notin> fst ` set (observers st)" and tl: "a \<notin> fst ` set hs"
    and dist: "distinct (map fst hs)"
    and disj: "fst ` set (observers st) \<inter> fst ` set hs = {}"
    using Cons.prems(2,3) by (auto simp: h)
  show ?case
  proof (cases "observes (Component c) = Some ''atlas''")
    case True
    have step: "scan_hooks (h # hs) st = scan_hooks hs (observe a c st)"
      using nf True by (simp add: h)
    have obs1: "observers (observe a c st) = observers st @ [(a, c)]"
      using fresh by (simp add: observe_def update_fresh)
    have "observers (snd (scan_hooks hs (observe a c st))) =
        observers (observe a c st) @ filter (\<lambda>(a, c). observes (Component c) = Some ''atlas'') hs"
    proof (rule Cons.IH)
      show "fst (scan_hooks hs (observe a c st)) = Resolved"
        using Cons.prems(1) unfolding step .
      show "distinct (map fst hs)" by (rule dist)
      show "fst ` set (observers (observe a c st)) \<inter> fst ` set hs = {}"
        unfolding obs1 using disj tl by simp
    qed
    then show ?thesis unfolding step obs1 using True by (simp add: h)
  next
    case False
    have step: "scan_hooks (h # hs) st = scan_hooks hs st"
      using nf False by (simp add: h)
    have "observers (snd (scan_hooks hs st)) =
        observers st @ filter (\<lambda>(a, c). observes (Component c) = Some ''atlas'') hs"
    proof (rule Cons.IH)
      show "fst (scan_hooks hs st) = Resolved"
        using Cons.prems(1) unfolding step .
      show "distinct (map fst hs)" by (rule dist)
      show "fst ` set (observers st) \<inter> fst ` set hs = {}" by (rule disj)
    qed
    then show ?thesis unfolding step using False by (simp add: h)
  qed
qed

lemma prepare_prepared: "prepared st \<Longrightarrow> prepare b st = (Resolved, st)"
  by (simp add: prepare_def)

lemma prepare_scan_rejected:
  assumes "\<not> prepared st" and "scan_hooks (cat_hooks st) st = (Rejected e, st1)"
  shows "prepare b st = (Rejected e, st1)"
  using assms by (simp add: prepare_def andthen_def)

lemma prepare_unprepared:
  assumes "\<not> prepared st" and scan: "scan_hooks (cat_hooks st) st = (Resolved, st1)"
  shows "\<exists>st4. prepares st1 st4 \<and>
    (prepare b st = dispatch b AfterPrepare (observers st4) (st4\<lparr>prepared := True\<rparr>)
     \<or> (\<exists>e. prepare b st = (Rejected e, st4)))"
proof -
  let ?pa = "\<lambda>coll k cat st. promise_all (settle_prepare b coll) Prepare (tasks k cat) st"
  let ?rest = "\<lambda>st. dispatch b AfterPrepare (observers st) (st\<lparr>prepared := True\<rparr>)"
  define m2 where "m2 = ?pa None Hook (cat_hooks st1) st1"
  define m3 where "m3 = ?pa (Some Actions) Action (cat_actions (snd m2)) (snd m2)"
  define m4 where "m4 = ?pa (Some Services) Service (cat_services (snd m3)) (snd m3)"
  have p2: "prepares st1 (snd m2)"
    unfolding m2_def by (rule prepares_promise_all) simp
  have p3: "prepares (snd m2) (snd m3)"
    unfolding m3_def by (rule prepares_promise_all) (simp add: catalog_of_def)
  have p4: "prepares (snd m3) (snd m4)"
    unfolding m4_def by (rule prepares_promise_all) (simp add: catalog_of_def)
  note p13 = prepares_trans [OF p2 p3]
  note p14 = prepares_trans [OF p13 p4]
  have eq: "prepare b st =
      andthen m2 (\<lambda>s. andthen (?pa (Some Actions) Action (cat_actions s) s)
        (\<lambda>s. andthen (?pa (Some Services) Service (cat_services s) s) ?rest))"
    using assms by (simp add: prepare_def andthen_def m2_def)
  show ?thesis
  proof (cases "fst m2")
    case (Rejected e)
    then have "prepare b st = (Rejected e, snd m2)"
      unfolding eq by (cases m2) (simp add: andthen_def)
    with p2 show ?thesis by blast
  next
    case Resolved
    then have eq3: "prepare b st =
        andthen m3 (\<lambda>s. andthen (?pa (Some Services) Service (cat_services s) s) ?rest)"
      unfolding eq m3_def by (cases m2) (simp add: andthen_def)
    show ?thesis
    proof (cases "fst m3")
      case (Rejected e)
      then have "prepare b st = (Rejected e, snd m3)"
        unfolding eq3 by (cases m3) (simp add: andthen_def)
      with p13 show ?thesis by blast
    next
      case Resolved
      then have eq4: "prepare b st = andthen m4 ?rest"
        unfolding eq3 m4_def by (cases m3) (simp add: andthen_def)
      show ?thesis
      proof (cases "fst m4")
        case (Rejected e)
        then have "prepare b st = (Rejected e, snd m4)"
          unfolding eq4 by (cases m4) (simp add: andthen_def)
        with p14 show ?thesis by blast
      next
        case Resolved
        then have "prepare b st = ?rest (snd m4)"
          unfolding eq4 by (cases m4) (simp add: andthen_def)
        with p14 show ?thesis by blast
      qed
    qed
  qed
qed

lemma prepare_Resolved_prepared:
  assumes "fst (prepare b st) = Resolved"
  shows "prepared (snd (prepare b st))"
proof (cases "prepared st")
  case True
  then show ?thesis by (simp add: prepare_prepared)
next
  case False
  obtain r st1 where scan: "scan_hooks (cat_hooks st) st = (r, st1)" by (cases "scan_hooks (cat_hooks st) st")
  show ?thesis
  proof (cases r)
    case (Rejected e)
    with assms prepare_scan_rejected [OF False, of e st1 b] scan show ?thesis by simp
  next
    case Resolved
    from prepare_unprepared [OF False scan [unfolded Resolved], of b] assms
    show ?thesis by (auto simp: dispatch_eq)
  qed
qed

lemma prepare_frame:
  "cat_services (snd (prepare b st)) = cat_services st"
  "cat_hooks (snd (prepare b st)) = cat_hooks st"
  "cat_actions (snd (prepare b st)) = cat_actions st"
  "started (snd (prepare b st)) = started st"
  "\<exists>evs. effects (snd (prepare b st)) = effects st @ evs \<and> list_all prepare_event evs"
  "fst ` set (services (snd (prepare b st))) \<subseteq> fst ` set (services st) \<union> fst ` set (cat_services st)"
  "fst ` set (actions (snd (prepare b st))) \<subseteq> fst ` set (actions st) \<union> fst ` set (cat_actions st)"
proof -
  let ?goal = "\<lambda>st'. cat_services st' = cat_services st \<and> cat_hooks st' = cat_hooks st
    \<and> cat_actions st' = cat_actions st \<and> started st' = started st
    \<and> (\<exists>evs. effects st' = effects st @ evs \<and> list_all prepare_event evs)
    \<and> fst ` set (services st') \<subseteq> fst ` set (services st) \<union> fst ` set (cat_services st)
    \<and> fst ` set (actions st') \<subseteq> fst ` set (actions st) \<union> fst ` set (cat_actions st)"
  have scanned: "?goal st4" if p: "prepares (snd (scan_hooks (cat_hooks st) st)) st4" for st4
  proof -
    from preparesD(7) [OF p] obtain evs
      where "effects st4 = effects st @ evs" "list_all preparing evs" by auto
    then have "\<exists>evs. effects st4 = effects st @ evs \<and> list_all prepare_event evs"
      by (auto simp: list_all_iff prepare_event_def)
    with preparesD(1-6,8,9) [OF p] show ?thesis by simp
  qed
  have "?goal (snd (prepare b st))"
  proof (cases "prepared st")
    case True
    then show ?thesis by (simp add: prepare_prepared)
  next
    case False
    let ?st1 = "snd (scan_hooks (cat_hooks st) st)"
    show ?thesis
    proof (cases "fst (scan_hooks (cat_hooks st) st)")
      case (Rejected e)
      then have "scan_hooks (cat_hooks st) st = (Rejected e, ?st1)"
        by (simp add: prod_eq_iff)
      from prepare_scan_rejected [OF False this, of b] show ?thesis
        by simp
    next
      case Resolved
      then have scan: "scan_hooks (cat_hooks st) st = (Resolved, ?st1)"
        by (simp add: prod_eq_iff)
      from prepare_unprepared [OF False scan, of b] obtain st4
        where p: "prepares ?st1 st4"
          and d: "prepare b st = dispatch b AfterPrepare (observers st4) (st4\<lparr>prepared := True\<rparr>)
            \<or> (\<exists>e. prepare b st = (Rejected e, st4))" by blast
      from scanned [OF p] have g: "?goal st4" .
      from d show ?thesis
      proof
        assume "\<exists>e. prepare b st = (Rejected e, st4)"
        then obtain e where "prepare b st = (Rejected e, st4)" ..
        with g show ?thesis by simp
      next
        assume eq: "prepare b st = dispatch b AfterPrepare (observers st4) (st4\<lparr>prepared := True\<rparr>)"
        from g obtain evs where evs: "effects st4 = effects st @ evs" "list_all prepare_event evs"
          by blast
        let ?n = "map (Notified AfterPrepare) (delivered b AfterPrepare (observers st4))"
        have "effects (snd (prepare b st)) = effects st @ (evs @ ?n)"
          "list_all prepare_event (evs @ ?n)"
          using evs by (auto simp: eq dispatch_eq list_all_iff prepare_event_def)
        then have "\<exists>evs. effects (snd (prepare b st)) = effects st @ evs \<and> list_all prepare_event evs"
          by blast
        with g show ?thesis by (simp add: eq dispatch_eq)
      qed
    qed
  qed
  then show "cat_services (snd (prepare b st)) = cat_services st"
    "cat_hooks (snd (prepare b st)) = cat_hooks st"
    "cat_actions (snd (prepare b st)) = cat_actions st"
    "started (snd (prepare b st)) = started st"
    "\<exists>evs. effects (snd (prepare b st)) = effects st @ evs \<and> list_all prepare_event evs"
    "fst ` set (services (snd (prepare b st))) \<subseteq> fst ` set (services st) \<union> fst ` set (cat_services st)"
    "fst ` set (actions (snd (prepare b st))) \<subseteq> fst ` set (actions st) \<union> fst ` set (cat_actions st)"
    by blast+
qed

lemma prepare_filter:
  assumes "\<And>e. prepare_event e \<Longrightarrow> \<not> Q e"
  shows "filter Q (effects (snd (prepare b st))) = filter Q (effects st)"
proof -
  from prepare_frame(5) [of b st] obtain evs
    where "effects (snd (prepare b st)) = effects st @ evs" "list_all prepare_event evs" by blast
  with assms show ?thesis by (auto simp: list_all_iff filter_empty_conv)
qed

lemma prepare_notifications:
  assumes "\<not> prepared st" and "fst (prepare b st) = Resolved"
  shows "observers (snd (prepare b st)) = observers (snd (scan_hooks (cat_hooks st) st))"
    and "fst (scan_hooks (cat_hooks st) st) = Resolved"
    and "filter (notification AfterPrepare) (effects (snd (prepare b st))) =
      filter (notification AfterPrepare) (effects st)
      @ map (Notified AfterPrepare) (map fst (observers (snd (prepare b st))))"
proof -
  let ?st1 = "snd (scan_hooks (cat_hooks st) st)"
  show scan: "fst (scan_hooks (cat_hooks st) st) = Resolved"
  proof (cases "fst (scan_hooks (cat_hooks st) st)")
    case (Rejected e)
    then have "scan_hooks (cat_hooks st) st = (Rejected e, ?st1)" by (simp add: prod_eq_iff)
    from prepare_scan_rejected [OF assms(1) this, of b] assms(2) show ?thesis by simp
  qed
  then have "scan_hooks (cat_hooks st) st = (Resolved, ?st1)" by (simp add: prod_eq_iff)
  from prepare_unprepared [OF assms(1) this, of b] assms(2) obtain st4
    where p: "prepares ?st1 st4"
      and eq: "prepare b st = dispatch b AfterPrepare (observers st4) (st4\<lparr>prepared := True\<rparr>)"
    by auto
  from assms(2) have d: "dispatched b AfterPrepare (observers st4) = Resolved"
    by (simp add: eq dispatch_eq)
  from preparesD(7) [OF p] obtain evs
    where evs: "effects st4 = effects st @ evs" "list_all preparing evs" by auto
  have "filter (notification AfterPrepare) evs = []"
    using evs(2) by (auto simp: filter_empty_conv list_all_iff dest: preparing_filtered)
  then show "filter (notification AfterPrepare) (effects (snd (prepare b st))) =
      filter (notification AfterPrepare) (effects st)
      @ map (Notified AfterPrepare) (map fst (observers (snd (prepare b st))))"
    by (simp add: eq dispatch_eq evs(1) delivered_all [OF d])
  show "observers (snd (prepare b st)) = observers ?st1"
    by (simp add: eq dispatch_eq preparesD(4) [OF p])
qed


subsection \<open>The start sequence\<close>

lemma service_start_events_all:
  "first_rejection (map (on_start b Service) (map fst ss)) = Resolved \<Longrightarrow>
   concat (map (service_start_events b) (map fst ss))
    = concat (map (\<lambda>(a, c). [Invoked Start Service a, Settled Start Service a Resolved]) ss)"
  by (induction ss) (auto simp: service_start_events_def first_rejection_Resolved)

lemma start_services_eq:
  "start_services b ss st =
     (let st1 = st\<lparr>effects := effects st
        @ concat (map (service_start_events b) (upto_rejection (on_start b Service) (map fst ss)))\<rparr>
      in case first_rejection (map (on_start b Service) (map fst ss)) of
           Resolved \<Rightarrow> (Resolved, st1)
         | Rejected e \<Rightarrow> (Rejected e, rollback b st1))"
proof (induction ss arbitrary: st)
  case Nil
  show ?case by simp
next
  case (Cons s ss)
  obtain a c where s: "s = (a, c)" by (cases s)
  show ?case
    by (cases "on_start b Service a")
       (simp_all add: s Cons.IH Let_def emit_def service_start_events_def split: outcome.splits)
qed

lemma start_after_prepare:
  assumes "prepare b st = (Resolved, sp)"
  shows "start b st =
    (let n1 = map (Notified BeforeStart) (delivered b BeforeStart (observers sp));
         ts = hooks_and_actions sp;
         c1 = map (\<lambda>(k, a). Invoked Start k a) ts @ map (\<lambda>(k, a). Settled Start k a (on_start b k a)) ts;
         c2 = concat (map (service_start_events b)
                (upto_rejection (on_start b Service) (map fst (cat_services sp))));
         n2 = map (Notified AfterStart) (delivered b AfterStart (observers sp))
     in case dispatched b BeforeStart (observers sp) of
          Rejected e \<Rightarrow> (Rejected e, sp\<lparr>effects := effects sp @ n1\<rparr>)
        | Resolved \<Rightarrow>
           (case first_rejection (map (\<lambda>(k, a). on_start b k a) ts) of
              Rejected e \<Rightarrow> (Rejected e, sp\<lparr>effects := effects sp @ n1 @ c1\<rparr>)
            | Resolved \<Rightarrow>
               (case first_rejection (map (on_start b Service) (map fst (cat_services sp))) of
                  Rejected e \<Rightarrow> (Rejected e, rollback b (sp\<lparr>effects := effects sp @ n1 @ c1 @ c2\<rparr>))
                | Resolved \<Rightarrow>
                   (case dispatched b AfterStart (observers sp) of
                      Rejected e \<Rightarrow>
                        (Rejected e, sp\<lparr>started := True, effects := effects sp @ n1 @ c1 @ c2 @ n2\<rparr>)
                    | Resolved \<Rightarrow>
                        (Resolved, sp\<lparr>started := True,
                           effects := effects sp @ n1 @ c1 @ c2 @ n2 @ [Logged Info ''atlas:ready'' None]\<rparr>)))))"
  by (simp add: start_def start_prologue_def andthen_def assms dispatch_eq promise_all_settle_eq
        start_services_eq Let_def emit_def split: outcome.splits)

lemma start_prepare_Resolved:
  assumes "fst (start b st) = Resolved"
  shows "fst (prepare b st) = Resolved"
proof (cases "fst (prepare b st)")
  case Resolved
  then show ?thesis .
next
  case (Rejected e)
  then obtain sp where "prepare b st = (Rejected e, sp)"
    by (cases "prepare b st") auto
  then have "fst (start b st) = Rejected e"
    by (simp add: start_def start_prologue_def andthen_def)
  with assms show ?thesis by simp
qed

lemma start_Resolved:
  assumes "fst (start b st) = Resolved"
  defines "sp \<equiv> snd (prepare b st)"
  shows "snd (start b st) = sp\<lparr>started := True,
      effects := effects sp
        @ map (Notified BeforeStart) (map fst (observers sp))
        @ map (\<lambda>(k, a). Invoked Start k a) (hooks_and_actions sp)
        @ map (\<lambda>(k, a). Settled Start k a Resolved) (hooks_and_actions sp)
        @ concat (map (\<lambda>(a, c). [Invoked Start Service a, Settled Start Service a Resolved])
            (cat_services sp))
        @ map (Notified AfterStart) (map fst (observers sp))
        @ [Logged Info ''atlas:ready'' None]\<rparr>"
proof -
  have p: "prepare b st = (Resolved, sp)"
    using start_prepare_Resolved [OF assms(1)] by (simp add: prod_eq_iff sp_def)
  note eq = start_after_prepare [OF p]
  from assms(1) have d1: "dispatched b BeforeStart (observers sp) = Resolved"
    unfolding eq Let_def by (auto split: outcome.splits)
  from assms(1) have r1: "first_rejection (map (\<lambda>(k, a). on_start b k a) (hooks_and_actions sp)) = Resolved"
    unfolding eq Let_def d1 by (auto split: outcome.splits)
  from assms(1) r1 have r2: "first_rejection (map (on_start b Service) (map fst (cat_services sp))) = Resolved"
    unfolding eq Let_def d1 by (auto split: outcome.splits)
  from assms(1) r1 r2 have d2: "dispatched b AfterStart (observers sp) = Resolved"
    unfolding eq Let_def d1 by (auto split: outcome.splits)
  have c2: "concat (map (service_start_events b)
        (upto_rejection (on_start b Service) (map fst (cat_services sp))))
      = concat (map (\<lambda>(a, c). [Invoked Start Service a, Settled Start Service a Resolved])
          (cat_services sp))"
    unfolding upto_rejection_all [OF r2] by (rule service_start_events_all [OF r2])
  show ?thesis
    unfolding eq Let_def d1 d2 r1 r2 outcome.case settled_Resolved [OF r1]
      delivered_all [OF d1] delivered_all [OF d2] c2
    by simp
qed

lemma start_prologue_frame:
  "cat_services (snd (start_prologue b st)) = cat_services st"
  "filter (service_call Start) (effects (snd (start_prologue b st)))
     = filter (service_call Start) (effects st)"
proof -
  obtain r sp where p: "prepare b st = (r, sp)" by (cases "prepare b st")
  have c: "cat_services sp = cat_services st"
    using prepare_frame(1) [of b st] by (simp add: p)
  have "filter (service_call Start) (effects (snd (prepare b st)))
      = filter (service_call Start) (effects st)"
    by (rule prepare_filter) (rule prepare_event_filtered)
  then have f: "filter (service_call Start) (effects sp) = filter (service_call Start) (effects st)"
    by (simp add: p)
  show "cat_services (snd (start_prologue b st)) = cat_services st"
    by (cases r)
       (simp_all add: start_prologue_def andthen_def p c dispatch_eq promise_all_settle_eq
          split: outcome.splits)
  show "filter (service_call Start) (effects (snd (start_prologue b st)))
     = filter (service_call Start) (effects st)"
    by (cases r)
       (simp_all add: start_prologue_def andthen_def p f dispatch_eq promise_all_settle_eq
          split: outcome.splits)
qed

lemma start_surfaces:
  assumes "fst (start b st) = Resolved"
    and "fst ` set (services st) \<subseteq> fst ` set (cat_services st)"
    and "fst ` set (actions st) \<subseteq> fst ` set (cat_actions st)"
  shows "fst ` set (services (snd (start b st))) \<subseteq> set (map fst (cat_services (snd (start b st))))"
    and "fst ` set (actions (snd (start b st))) \<subseteq> set (map fst (cat_actions (snd (start b st))))"
proof -
  have 1: "services (snd (start b st)) = services (snd (prepare b st))"
    "cat_services (snd (start b st)) = cat_services st"
    "actions (snd (start b st)) = actions (snd (prepare b st))"
    "cat_actions (snd (start b st)) = cat_actions st"
    by (simp_all add: start_Resolved [OF assms(1)] prepare_frame(1,3))
  show "fst ` set (services (snd (start b st))) \<subseteq> set (map fst (cat_services (snd (start b st))))"
    unfolding 1 set_map using assms(2) prepare_frame(6) [of b st] by blast
  show "fst ` set (actions (snd (start b st))) \<subseteq> set (map fst (cat_actions (snd (start b st))))"
    unfolding 1 set_map using assms(3) prepare_frame(7) [of b st] by blast
qed


subsection \<open>Effects of a whole run\<close>

lemma start_service_calls:
  "filter (service_call Start) (effects (snd (start b st))) =
     filter (service_call Start) (effects st)
     @ (if fst (start_prologue b st) = Resolved
        then concat (map (service_start_events b)
               (upto_rejection (on_start b Service) (map fst (cat_services st))))
        else [])"
proof -
  obtain r s1 where pro: "start_prologue b st = (r, s1)" by (cases "start_prologue b st")
  have cat: "cat_services s1 = cat_services st"
    using start_prologue_frame(1) [of b st] by (simp add: pro)
  have f: "filter (service_call Start) (effects s1) = filter (service_call Start) (effects st)"
    using start_prologue_frame(2) [of b st] by (simp add: pro)
  show ?thesis
  proof (cases r)
    case (Rejected e)
    then show ?thesis by (simp add: start_def pro andthen_def f)
  next
    case Resolved
    show ?thesis
      by (simp add: start_def pro Resolved andthen_def start_services_eq Let_def cat f dispatch_eq
            emit_def split: outcome.splits)
  qed
qed

lemma stop_service_steps:
  "filter service_stop_step (effects (snd (stop b st))) =
     filter service_stop_step (effects st)
     @ (if fst (stop_prologue b st) = Resolved
        then concat (map (\<lambda>(a, c). service_stop_events b a) (rev (cat_services st)))
        else [])"
proof (cases "fst (stop_prologue b st)")
  case Resolved
  then show ?thesis by (simp add: stop_effects split: outcome.splits)
next
  case (Rejected e)
  then obtain s1 where pro: "stop_prologue b st = (Rejected e, s1)"
    by (cases "stop_prologue b st") auto
  have "filter service_stop_step (effects (snd (stop_prologue b st)))
      = filter service_stop_step (effects st)"
    by (simp add: stop_prologue_eq split: outcome.splits)
  then show ?thesis by (simp add: stop_def pro andthen_def)
qed

lemma stop_service_calls:
  "filter (service_call Stop) (effects (snd (stop b st))) =
     filter (service_call Stop) (effects st)
     @ (if fst (stop_prologue b st) = Resolved
        then concat (map (\<lambda>(a, c). [Invoked Stop Service a,
                                        Settled Stop Service a (on_stop b Service a)])
               (rev (cat_services st)))
        else [])"
proof (cases "fst (stop_prologue b st)")
  case Resolved
  then show ?thesis by (simp add: stop_effects split: outcome.splits)
next
  case (Rejected e)
  then obtain s1 where pro: "stop_prologue b st = (Rejected e, s1)"
    by (cases "stop_prologue b st") auto
  have "filter (service_call Stop) (effects (snd (stop_prologue b st)))
      = filter (service_call Stop) (effects st)"
    by (simp add: stop_prologue_eq split: outcome.splits)
  then show ?thesis by (simp add: stop_def pro andthen_def)
qed

lemma stop_notifications:
  "filter (notification BeforeStop) (effects (snd (stop b st))) =
     filter (notification BeforeStop) (effects st)
     @ map (Notified BeforeStop) (delivered b BeforeStop (observers st))"
  "filter (notification AfterStop) (effects (snd (stop b st))) =
     filter (notification AfterStop) (effects st)
     @ (if fst (stop_prologue b st) = Resolved
        then map (Notified AfterStop) (delivered b AfterStop (cat_hooks st))
        else [])"
proof -
  have "filter (notification BeforeStop) (effects (snd (stop b st))) =
     filter (notification BeforeStop) (effects st)
     @ map (Notified BeforeStop) (delivered b BeforeStop (observers st))
    \<and> filter (notification AfterStop) (effects (snd (stop b st))) =
     filter (notification AfterStop) (effects st)
     @ (if fst (stop_prologue b st) = Resolved
        then map (Notified AfterStop) (delivered b AfterStop (cat_hooks st))
        else [])"
    by (simp add: stop_def stop_prologue_eq stop_body_eq andthen_def Let_def emit_def
          split: outcome.splits)
  then show "filter (notification BeforeStop) (effects (snd (stop b st))) =
     filter (notification BeforeStop) (effects st)
     @ map (Notified BeforeStop) (delivered b BeforeStop (observers st))"
    "filter (notification AfterStop) (effects (snd (stop b st))) =
     filter (notification AfterStop) (effects st)
     @ (if fst (stop_prologue b st) = Resolved
        then map (Notified AfterStop) (delivered b AfterStop (cat_hooks st))
        else [])"
    by simp_all
qed

section \<open>Properties of the lifecycle\<close>

text \<open>
  Throughout, the effects of a call are compared with those recorded before it: a view
  (\<open>filter\<close>) of the effects after the call is the same view of the effects before it,
  followed by what the call added.
\<close>

subsection \<open>Order of the service loops\<close>

text \<open>
  Claim C1. In every run of \<^verbatim>\<open>start\<close> that gets past \<^verbatim>\<open>prepare\<close>, the \<^verbatim>\<open>beforeStart\<close> dispatch
  and the hook and action batch, the calls of \<^verbatim>\<open>start\<close> on service containers are made in
  registration order, each one settled before the next is made, and none is made after
  one that rejected; a run that does not get that far makes none. So a \<^verbatim>\<open>start\<close> that
  resolves has started every service, in registration order, each after the previous one
  had resolved. In every run of \<^verbatim>\<open>stop\<close> that gets past the \<^verbatim>\<open>beforeStop\<close> dispatch and the
  hook and action batch, \<^verbatim>\<open>stop\<close> is called on every service container, in reverse
  registration order, each call settled before the next is made, whatever these calls
  return. All of this holds of catalogs of any size, those with two or more services
  among them.
\<close>

theorem services_start_in_order_stop_in_reverse:
  "filter (service_call Start) (effects (snd (start b st))) =
     filter (service_call Start) (effects st)
     @ (if fst (start_prologue b st) = Resolved
        then concat (map (service_start_events b)
               (upto_rejection (on_start b Service) (map fst (cat_services st))))
        else [])
   \<and> (fst (start b st) = Resolved \<longrightarrow>
      filter (service_call Start) (effects (snd (start b st))) =
        filter (service_call Start) (effects st)
        @ concat (map (\<lambda>(a, c). [Invoked Start Service a, Settled Start Service a Resolved])
            (cat_services st)))
   \<and> filter (service_call Stop) (effects (snd (stop b st))) =
     filter (service_call Stop) (effects st)
     @ (if fst (stop_prologue b st) = Resolved
        then concat (map (\<lambda>(a, c). [Invoked Stop Service a,
                                        Settled Stop Service a (on_stop b Service a)])
               (rev (cat_services st)))
        else [])"
proof (intro conjI impI)
  show "filter (service_call Start) (effects (snd (start b st))) =
     filter (service_call Start) (effects st)
     @ (if fst (start_prologue b st) = Resolved
        then concat (map (service_start_events b)
               (upto_rejection (on_start b Service) (map fst (cat_services st))))
        else [])"
    by (rule start_service_calls)
next
  assume r: "fst (start b st) = Resolved"
  have f: "filter (service_call Start) (effects (snd (prepare b st)))
      = filter (service_call Start) (effects st)"
    by (rule prepare_filter) (rule prepare_event_filtered)
  show "filter (service_call Start) (effects (snd (start b st))) =
      filter (service_call Start) (effects st)
      @ concat (map (\<lambda>(a, c). [Invoked Start Service a, Settled Start Service a Resolved])
          (cat_services st))"
    by (simp add: start_Resolved [OF r] f prepare_frame(1))
next
  show "filter (service_call Stop) (effects (snd (stop b st))) =
     filter (service_call Stop) (effects st)
     @ (if fst (stop_prologue b st) = Resolved
        then concat (map (\<lambda>(a, c). [Invoked Stop Service a,
                                        Settled Stop Service a (on_stop b Service a)])
               (rev (cat_services st)))
        else [])"
    by (rule stop_service_calls)
qed

theorem services_start_in_order_stop_in_reverse_witness:
  "fst (start calm demo) = Resolved
   \<and> filter (service_call Start) (effects (snd (start calm demo))) =
       [Invoked Start Service ''db'', Settled Start Service ''db'' Resolved,
        Invoked Start Service ''http'', Settled Start Service ''http'' Resolved]
   \<and> filter (service_call Stop) (effects (snd (stop stubborn running))) =
       filter (service_call Stop) (effects running)
       @ [Invoked Stop Service ''http'',
          Settled Stop Service ''http'' (Rejected (Thrown ''cannot stop http'')),
          Invoked Stop Service ''db'',
          Settled Stop Service ''db'' (Rejected (Thrown ''cannot stop db''))]"
proof -
  have h1: "fst (start calm demo) = Resolved" by code_simp
  have h2: "fst (stop_prologue stubborn running) = Resolved" by code_simp
  have e1: "filter (service_call Start) (effects demo)
      @ concat (map (\<lambda>(a, c). [Invoked Start Service a, Settled Start Service a Resolved])
          (cat_services demo)) =
      [Invoked Start Service ''db'', Settled Start Service ''db'' Resolved,
       Invoked Start Service ''http'', Settled Start Service ''http'' Resolved]"
    by code_simp
  have e2: "concat (map (\<lambda>(a, c). [Invoked Stop Service a,
                                   Settled Stop Service a (on_stop stubborn Service a)])
          (rev (cat_services running))) =
      [Invoked Stop Service ''http'',
       Settled Stop Service ''http'' (Rejected (Thrown ''cannot stop http'')),
       Invoked Stop Service ''db'',
       Settled Stop Service ''db'' (Rejected (Thrown ''cannot stop db''))]"
    by code_simp
  note t1 = services_start_in_order_stop_in_reverse [of calm demo]
  note t2 = services_start_in_order_stop_in_reverse [of stubborn running]
  from t1 h1 have c1: "filter (service_call Start) (effects (snd (start calm demo))) =
      filter (service_call Start) (effects demo)
      @ concat (map (\<lambda>(a, c). [Invoked Start Service a, Settled Start Service a Resolved])
          (cat_services demo))"
    by blast
  from t2 have c2: "filter (service_call Stop) (effects (snd (stop stubborn running))) =
     filter (service_call Stop) (effects running)
     @ (if fst (stop_prologue stubborn running) = Resolved
        then concat (map (\<lambda>(a, c). [Invoked Stop Service a,
                                        Settled Stop Service a (on_stop stubborn Service a)])
               (rev (cat_services running)))
        else [])"
    by blast
  show ?thesis
    using h1 c1 [unfolded e1] c2 [unfolded h2 if_True e2] by simp
qed

subsection \<open>Failure of a service start\<close>

text \<open>
  Claim C2. Let \<^verbatim>\<open>prepare\<close>, the \<^verbatim>\<open>beforeStart\<close> dispatch and the hook and action batch of a
  \<^verbatim>\<open>start\<close> resolve, and let \<open>a\<close> be the first service whose start throws, with error
  \<open>err\<close>. Then \<^verbatim>\<open>start\<close> rejects with \<open>err\<close>, whatever the rollback does; no service
  registered after \<open>a\<close> is started; and the orchestrator is left in the state in which
  \<^verbatim>\<open>stop\<close>, called at the point of failure, leaves it, with one fatal log entry added when
  that \<^verbatim>\<open>stop\<close> rejects.
\<close>

theorem failed_service_start_rolls_back:
  assumes "fst (start_prologue b st) = Resolved"
    and "cat_services st = pre @ (a, c) # post"
    and "\<forall>x\<in>fst ` set pre. on_start b Service x = Resolved"
    and "on_start b Service a = Rejected err"
  shows "fst (start b st) = Rejected err
    \<and> filter (service_call Start) (effects (snd (start b st))) =
        filter (service_call Start) (effects st)
        @ concat (map (service_start_events b) (map fst pre @ [a]))
    \<and> snd (start b st) =
        (case stop b ((snd (start_prologue b st))\<lparr>effects := effects (snd (start_prologue b st))
                @ concat (map (service_start_events b) (map fst pre @ [a]))\<rparr>) of
           (Resolved, s) \<Rightarrow> s
         | (Rejected stopErr, s) \<Rightarrow>
             emit (Logged Fatal ''atlas:start:rollback-failure'' (Some stopErr)) s)"
proof -
  from assms(1) obtain s1 where pro: "start_prologue b st = (Resolved, s1)"
    by (cases "start_prologue b st") auto
  let ?failed = "s1\<lparr>effects := effects s1
      @ concat (map (service_start_events b) (map fst pre @ [a]))\<rparr>"
  have cat: "map fst (cat_services s1) = map fst pre @ a # map fst post"
    using start_prologue_frame(1) [of b st] by (simp add: pro assms(2))
  have f: "filter (service_call Start) (effects s1) = filter (service_call Start) (effects st)"
    using start_prologue_frame(2) [of b st] by (simp add: pro)
  have pre: "\<forall>x\<in>set (map fst pre). on_start b Service x = Resolved"
    using assms(3) by simp
  note u = upto_rejection_prefix [where f = "on_start b Service", OF pre assms(4), of "map fst post"]
  have "start_services b (cat_services s1) s1 = (Rejected err, rollback b ?failed)"
    unfolding start_services_eq Let_def cat u by simp
  then have eq: "start b st = (Rejected err, rollback b ?failed)"
    by (simp add: start_def pro andthen_def)
  have 1: "filter (service_call Start) (effects (rollback b ?failed)) =
      filter (service_call Start) (effects st)
      @ concat (map (service_start_events b) (map fst pre @ [a]))"
    by (simp add: f)
  have 2: "rollback b ?failed =
      (case stop b ?failed of
         (Resolved, s) \<Rightarrow> s
       | (Rejected stopErr, s) \<Rightarrow>
           emit (Logged Fatal ''atlas:start:rollback-failure'' (Some stopErr)) s)"
    by (simp add: rollback_def)
  show ?thesis
    unfolding eq pro fst_conv snd_conv using 1 2 by blast
qed

theorem failed_service_start_rolls_back_witness:
  "fst (start_prologue port_taken demo) = Resolved
   \<and> cat_services demo = [(''db'', plain None)] @ (''http'', plain None) # []
   \<and> on_start port_taken Service ''db'' = Resolved
   \<and> on_start port_taken Service ''http'' = Rejected (Thrown ''EADDRINUSE'')
   \<and> fst (start port_taken demo) = Rejected (Thrown ''EADDRINUSE'')
   \<and> filter (service_call Start) (effects (snd (start port_taken demo))) =
       [Invoked Start Service ''db'', Settled Start Service ''db'' Resolved,
        Invoked Start Service ''http'',
        Settled Start Service ''http'' (Rejected (Thrown ''EADDRINUSE''))]"
proof -
  have h1: "fst (start_prologue port_taken demo) = Resolved" by code_simp
  have h2: "cat_services demo = [(''db'', plain None)] @ (''http'', plain None) # []"
    by (simp add: demo_def)
  have h3: "\<forall>x\<in>fst ` set [(''db'', plain None)]. on_start port_taken Service x = Resolved"
    by (simp add: port_taken_def)
  have h4: "on_start port_taken Service ''http'' = Rejected (Thrown ''EADDRINUSE'')"
    by (simp add: port_taken_def)
  have e: "filter (service_call Start) (effects demo)
      @ concat (map (service_start_events port_taken) (map fst [(''db'', plain None)] @ [''http''])) =
      [Invoked Start Service ''db'', Settled Start Service ''db'' Resolved,
       Invoked Start Service ''http'',
       Settled Start Service ''http'' (Rejected (Thrown ''EADDRINUSE''))]"
    by (simp add: demo_def service_start_events_def port_taken_def)
  note t = failed_service_start_rolls_back [OF h1 h2 h3 h4]
  note c1 = t [THEN conjunct1] and c2 = t [THEN conjunct2, THEN conjunct1]
  show ?thesis
    using h1 h2 h3 h4 c1 c2 e by simp
qed

subsection \<open>Failures of service stops\<close>




text \<open>
  The test at line 460 is one of truthiness: when the last service to fail rejects with
  \<^verbatim>\<open>undefined\<close>, the loop has caught two values and \<^verbatim>\<open>stop\<close> resolves.
\<close>

lemma falsy_error_not_rethrown:
  "fst (stop_prologue silent running) = Resolved
   \<and> retained [on_stop silent Service ''http'', on_stop silent Service ''db'']
       = Some ThrownUndefined
   \<and> fst (stop silent running) = Resolved"
  by code_simp

subsection \<open>Idempotence of prepare\<close>

text \<open>
  Claim C4. After a \<^verbatim>\<open>prepare\<close> that resolved, a second \<^verbatim>\<open>prepare\<close> resolves and returns the
  orchestrator as it is: the public objects are the same and nothing is added to the
  effects, so no container is prepared again, whatever the components would do.
\<close>

theorem prepare_idempotent:
  assumes "prepare b st = (Resolved, st1)"
  shows "prepare b' st1 = (Resolved, st1)"
  using prepare_Resolved_prepared [of b st] assms by (simp add: prepare_prepared)

theorem prepare_idempotent_witness:
  "prepare calm demo = (Resolved, snd (prepare calm demo))
   \<and> prepare stubborn (snd (prepare calm demo)) = (Resolved, snd (prepare calm demo))"
proof -
  have "fst (prepare calm demo) = Resolved" by code_simp
  then have h: "prepare calm demo = (Resolved, snd (prepare calm demo))"
    by (simp add: prod_eq_iff)
  from prepare_idempotent [OF h] h show ?thesis by blast
qed

subsection \<open>The round trip\<close>

text \<open>
  Claim C5, amended. A new instance is neither prepared nor started, and its public objects
  are empty. A \<^verbatim>\<open>stop\<close> whose \<^verbatim>\<open>beforeStop\<close> dispatch and hook and action batch resolve
  leaves both flags false. If the public objects hold nothing but components of the
  catalog, as they do on a new instance, then after a \<^verbatim>\<open>start\<close> that resolved and such a
  \<^verbatim>\<open>stop\<close> both flags are false and both public objects are empty, whether or not a
  service failed to stop.
\<close>

theorem start_stop_round_trip:
  "(constructor node_env opts = Inr st0 \<longrightarrow>
      \<not> prepared st0 \<and> \<not> started st0 \<and> services st0 = [] \<and> actions st0 = [])
   \<and> (fst (stop_prologue b st) = Resolved \<longrightarrow>
      \<not> prepared (snd (stop b st)) \<and> \<not> started (snd (stop b st)))
   \<and> (fst ` set (services st) \<subseteq> fst ` set (cat_services st)
      \<and> fst ` set (actions st) \<subseteq> fst ` set (cat_actions st)
      \<and> fst (start b st) = Resolved
      \<and> fst (stop_prologue b' (snd (start b st))) = Resolved \<longrightarrow>
      \<not> prepared (snd (stop b' (snd (start b st))))
      \<and> \<not> started (snd (stop b' (snd (start b st))))
      \<and> services (snd (stop b' (snd (start b st)))) = []
      \<and> actions (snd (stop b' (snd (start b st)))) = [])"
proof (intro conjI impI)
  assume "constructor node_env opts = Inr st0"
  then have "\<not> prepared st0 \<and> \<not> started st0 \<and> services st0 = [] \<and> actions st0 = []"
    by (auto simp: constructor_def Let_def split: if_splits option.splits root_option.splits)
  then show "\<not> prepared st0" "\<not> started st0" "services st0 = []" "actions st0 = []"
    by simp_all
next
  assume "fst (stop_prologue b st) = Resolved"
  then show "\<not> prepared (snd (stop b st))" "\<not> started (snd (stop b st))"
    by (simp_all add: stop_fields)
next
  assume a: "fst ` set (services st) \<subseteq> fst ` set (cat_services st)
      \<and> fst ` set (actions st) \<subseteq> fst ` set (cat_actions st)
      \<and> fst (start b st) = Resolved
      \<and> fst (stop_prologue b' (snd (start b st))) = Resolved"
  let ?st1 = "snd (start b st)"
  from a have r: "fst (start b st) = Resolved" and p: "fst (stop_prologue b' ?st1) = Resolved"
    and s0: "fst ` set (services st) \<subseteq> fst ` set (cat_services st)"
    and c0: "fst ` set (actions st) \<subseteq> fst ` set (cat_actions st)"
    by blast+
  note sc = start_surfaces [OF r s0 c0]
  show "\<not> prepared (snd (stop b' ?st1))" "\<not> started (snd (stop b' ?st1))"
    by (simp_all only: stop_fields(1,2) [OF p] not_False_eq_True)
  show "services (snd (stop b' ?st1)) = []"
    unfolding stop_fields(3) [OF p] by (rule without_empty [OF sc(1)])
  show "actions (snd (stop b' ?st1)) = []"
    unfolding stop_fields(4) [OF p] by (rule without_empty [OF sc(2)])
qed

theorem start_stop_round_trip_witness:
  "constructor (Some ''production'') \<lparr>opt_env = None, opt_root = RootString ''/srv/app''\<rparr> =
     Inr \<lparr>env = ''production'', root = ''/srv/app'', prepared = False, started = False,
       cat_services = [], cat_hooks = [], cat_actions = [], observers = [],
       services = [], actions = [], effects = []\<rparr>
   \<and> fst (stop_prologue calm demo) = Resolved
   \<and> fst ` set (services demo) \<subseteq> fst ` set (cat_services demo)
   \<and> fst ` set (actions demo) \<subseteq> fst ` set (cat_actions demo)
   \<and> fst (start calm demo) = Resolved
   \<and> fst (stop_prologue stubborn (snd (start calm demo))) = Resolved
   \<and> \<not> prepared (snd (stop calm demo)) \<and> \<not> started (snd (stop calm demo))
   \<and> \<not> prepared (snd (stop stubborn (snd (start calm demo))))
   \<and> \<not> started (snd (stop stubborn (snd (start calm demo))))
   \<and> services (snd (stop stubborn (snd (start calm demo)))) = []
   \<and> actions (snd (stop stubborn (snd (start calm demo)))) = []"
proof -
  have h0: "constructor (Some ''production'') \<lparr>opt_env = None, opt_root = RootString ''/srv/app''\<rparr> =
     Inr \<lparr>env = ''production'', root = ''/srv/app'', prepared = False, started = False,
       cat_services = [], cat_hooks = [], cat_actions = [], observers = [],
       services = [], actions = [], effects = []\<rparr>"
    by (simp add: constructor_def falsy_def)
  have h1: "fst (stop_prologue calm demo) = Resolved" by code_simp
  have h2: "fst ` set (services demo) \<subseteq> fst ` set (cat_services demo)"
    "fst ` set (actions demo) \<subseteq> fst ` set (cat_actions demo)"
    by (simp_all add: demo_def)
  have h3: "fst (start calm demo) = Resolved" by code_simp
  have h4: "fst (stop_prologue stubborn (snd (start calm demo))) = Resolved" by code_simp
  show ?thesis
    using start_stop_round_trip [where node_env = "Some ''production''"
        and opts = "\<lparr>opt_env = None, opt_root = RootString ''/srv/app''\<rparr>"
        and b = calm and st = demo and b' = stubborn]
      h0 h1 h2 h3 h4
    by blast
qed

text \<open>
  As the claim is worded, for every \<^verbatim>\<open>stop\<close> after a \<^verbatim>\<open>start\<close> that resolved, it fails.
  Lines 425 to 430 are not guarded: when the hook \<^verbatim>\<open>audit\<close> of the running application
  fails to stop, \<^verbatim>\<open>stop\<close> rejects before the service loop, and the orchestrator is still
  prepared and started with every service and action published.
\<close>

theorem start_stop_round_trip_counterexample:
  "fst (start calm demo) = Resolved
   \<and> fst (stop hook_stuck (snd (start calm demo))) = Rejected (Thrown ''audit cannot stop'')
   \<and> prepared (snd (stop hook_stuck (snd (start calm demo))))
   \<and> started (snd (stop hook_stuck (snd (start calm demo))))
   \<and> map fst (services (snd (stop hook_stuck (snd (start calm demo))))) = [''db'', ''http'']
   \<and> map fst (actions (snd (stop hook_stuck (snd (start calm demo))))) = [''ping'']"
  by code_simp

subsection \<open>A hook without the observes declaration\<close>



subsection \<open>Unpublishing before stopping\<close>

text \<open>
  Claim C7. In every run of \<^verbatim>\<open>stop\<close> that reaches the service loop, the loop does three
  things for each service, in reverse registration order: it deletes the alias from the
  public \<^verbatim>\<open>services\<close> object, then calls the container's \<^verbatim>\<open>stop\<close>, then sees that call
  settle; a run that does not reach the loop does none of them. So no container's \<^verbatim>\<open>stop\<close>
  is ever called while its alias is still published, and after the loop no alias of the
  service catalog is left in the public object, whatever the calls returned.
\<close>

theorem service_unpublished_before_stop:
  "filter service_stop_step (effects (snd (stop b st))) =
     filter service_stop_step (effects st)
     @ (if fst (stop_prologue b st) = Resolved
        then concat (map (\<lambda>(a, c). [Unpublished Services a, Invoked Stop Service a,
                                        Settled Stop Service a (on_stop b Service a)])
               (rev (cat_services st)))
        else [])
   \<and> (fst (stop_prologue b st) = Resolved \<longrightarrow>
      (\<forall>a\<in>fst ` set (cat_services st). a \<notin> fst ` set (services (snd (stop b st)))))"
proof (intro conjI impI)
  have e: "(\<lambda>(a, c). [Unpublished Services a, Invoked Stop Service a,
                       Settled Stop Service a (on_stop b Service a)])
      = (\<lambda>(a, c :: container). service_stop_events b a)"
    by (simp add: service_stop_events_def)
  show "filter service_stop_step (effects (snd (stop b st))) =
     filter service_stop_step (effects st)
     @ (if fst (stop_prologue b st) = Resolved
        then concat (map (\<lambda>(a, c). [Unpublished Services a, Invoked Stop Service a,
                                        Settled Stop Service a (on_stop b Service a)])
               (rev (cat_services st)))
        else [])"
    unfolding e by (rule stop_service_steps)
next
  assume p: "fst (stop_prologue b st) = Resolved"
  show "\<forall>a\<in>fst ` set (cat_services st). a \<notin> fst ` set (services (snd (stop b st)))"
    by (simp add: stop_fields [OF p] keys_without)
qed

theorem service_unpublished_before_stop_witness:
  "fst (stop_prologue stubborn running) = Resolved
   \<and> filter service_stop_step (effects (snd (stop stubborn running))) =
       filter service_stop_step (effects running)
       @ [Unpublished Services ''http'', Invoked Stop Service ''http'',
          Settled Stop Service ''http'' (Rejected (Thrown ''cannot stop http'')),
          Unpublished Services ''db'', Invoked Stop Service ''db'',
          Settled Stop Service ''db'' (Rejected (Thrown ''cannot stop db''))]
   \<and> map fst (cat_services running) = [''db'', ''http'']
   \<and> ''db'' \<notin> fst ` set (services (snd (stop stubborn running)))
   \<and> ''http'' \<notin> fst ` set (services (snd (stop stubborn running)))"
proof -
  have h: "fst (stop_prologue stubborn running) = Resolved" by code_simp
  have e: "concat (map (\<lambda>(a, c). [Unpublished Services a, Invoked Stop Service a,
                                   Settled Stop Service a (on_stop stubborn Service a)])
          (rev (cat_services running))) =
       [Unpublished Services ''http'', Invoked Stop Service ''http'',
        Settled Stop Service ''http'' (Rejected (Thrown ''cannot stop http'')),
        Unpublished Services ''db'', Invoked Stop Service ''db'',
        Settled Stop Service ''db'' (Rejected (Thrown ''cannot stop db''))]"
    by code_simp
  have c: "map fst (cat_services running) = [''db'', ''http'']" by code_simp
  then have k: "fst ` set (cat_services running) = {''db'', ''http''}"
    by (simp only: set_map [symmetric] list.set)
  note t = service_unpublished_before_stop [of stubborn running]
  note t1 = t [THEN conjunct1, unfolded h if_True e]
  from t h have "\<forall>a\<in>fst ` set (cat_services running).
      a \<notin> fst ` set (services (snd (stop stubborn running)))"
    by blast
  then have t2: "''db'' \<notin> fst ` set (services (snd (stop stubborn running)))"
    "''http'' \<notin> fst ` set (services (snd (stop stubborn running)))"
    unfolding k by simp_all
  show ?thesis
    using h t1 c t2 by simp
qed

subsection \<open>The target of afterStop\<close>

text \<open>
  Claim C8. In every run of \<^verbatim>\<open>stop\<close>, \<^verbatim>\<open>beforeStop\<close> is dispatched to the observer registry,
  and \<^verbatim>\<open>afterStop\<close>, once the run gets that far, to the hook catalog: each event reaches
  the containers of its map in order, up to the first whose handler throws. So when no
  \<^verbatim>\<open>afterStop\<close> handler throws, every hook of the catalog receives \<^verbatim>\<open>afterStop\<close>, observer
  or not. On a fresh orchestrator whose hook aliases are distinct, a \<^verbatim>\<open>start\<close> that resolves
  leaves in the registry exactly the hooks that observe the orchestrator, and has
  dispatched \<^verbatim>\<open>afterPrepare\<close>, \<^verbatim>\<open>beforeStart\<close> and \<^verbatim>\<open>afterStart\<close> to these and to no other
  hook.
\<close>

theorem after_stop_reaches_every_hook:
  "filter (notification AfterStop) (effects (snd (stop b st))) =
     filter (notification AfterStop) (effects st)
     @ (if fst (stop_prologue b st) = Resolved
        then map (Notified AfterStop) (delivered b AfterStop (cat_hooks st))
        else [])
   \<and> filter (notification BeforeStop) (effects (snd (stop b st))) =
     filter (notification BeforeStop) (effects st)
     @ map (Notified BeforeStop) (delivered b BeforeStop (observers st))
   \<and> (fst (stop_prologue b st) = Resolved
      \<and> (\<forall>h\<in>fst ` set (cat_hooks st). on_event b AfterStop h = Resolved) \<longrightarrow>
      filter (notification AfterStop) (effects (snd (stop b st))) =
        filter (notification AfterStop) (effects st)
        @ map (Notified AfterStop) (map fst (cat_hooks st)))
   \<and> (\<not> prepared st \<and> observers st = [] \<and> distinct (map fst (cat_hooks st))
      \<and> fst (start b st) = Resolved \<longrightarrow>
      map fst (observers (snd (start b st))) = self_observers st
      \<and> (\<forall>ev\<in>{AfterPrepare, BeforeStart, AfterStart}.
           filter (notification ev) (effects (snd (start b st))) =
             filter (notification ev) (effects st) @ map (Notified ev) (self_observers st)))"
proof (intro conjI impI)
  show "filter (notification AfterStop) (effects (snd (stop b st))) =
     filter (notification AfterStop) (effects st)
     @ (if fst (stop_prologue b st) = Resolved
        then map (Notified AfterStop) (delivered b AfterStop (cat_hooks st))
        else [])"
    by (rule stop_notifications(2))
  show "filter (notification BeforeStop) (effects (snd (stop b st))) =
     filter (notification BeforeStop) (effects st)
     @ map (Notified BeforeStop) (delivered b BeforeStop (observers st))"
    by (rule stop_notifications(1))
next
  assume a: "fst (stop_prologue b st) = Resolved
      \<and> (\<forall>h\<in>fst ` set (cat_hooks st). on_event b AfterStop h = Resolved)"
  then have d: "dispatched b AfterStop (cat_hooks st) = Resolved"
    by (simp add: dispatched_Resolved)
  from a show "filter (notification AfterStop) (effects (snd (stop b st))) =
        filter (notification AfterStop) (effects st)
        @ map (Notified AfterStop) (map fst (cat_hooks st))"
    by (simp add: stop_notifications(2) delivered_all [OF d])
next
  assume a: "\<not> prepared st \<and> observers st = [] \<and> distinct (map fst (cat_hooks st))
      \<and> fst (start b st) = Resolved"
  then have np: "\<not> prepared st" and r: "fst (start b st) = Resolved" by simp_all
  let ?sp = "snd (prepare b st)"
  note pr = start_prepare_Resolved [OF r]
  note n = prepare_notifications [OF np pr]
  have obs: "map fst (observers ?sp) = self_observers st"
    unfolding n(1) self_observers_def
    using scan_hooks_observers [OF n(2)] a by simp
  show "map fst (observers (snd (start b st))) = self_observers st"
    by (simp add: start_Resolved [OF r] obs)
  have other: "filter (notification ev) (effects ?sp) = filter (notification ev) (effects st)"
    if "ev \<noteq> AfterPrepare" for ev
    by (rule prepare_filter) (use that in \<open>auto dest: prepare_event_filtered(4)\<close>)
  show "\<forall>ev\<in>{AfterPrepare, BeforeStart, AfterStart}.
           filter (notification ev) (effects (snd (start b st))) =
             filter (notification ev) (effects st) @ map (Notified ev) (self_observers st)"
    using n(3) other [of BeforeStart] other [of AfterStart]
    by (simp add: start_Resolved [OF r] obs)
qed

theorem after_stop_reaches_every_hook_witness:
  "fst (stop_prologue stubborn running) = Resolved
   \<and> map fst (cat_hooks running) = [''audit'', ''metrics'']
   \<and> on_event stubborn AfterStop ''audit'' = Resolved
   \<and> on_event stubborn AfterStop ''metrics'' = Resolved
   \<and> \<not> prepared demo \<and> observers demo = [] \<and> distinct (map fst (cat_hooks demo))
   \<and> fst (start calm demo) = Resolved
   \<and> filter (notification AfterStop) (effects (snd (stop stubborn running))) =
       filter (notification AfterStop) (effects running)
       @ [Notified AfterStop ''audit'', Notified AfterStop ''metrics'']
   \<and> filter (notification BeforeStop) (effects (snd (stop stubborn running))) =
       filter (notification BeforeStop) (effects running) @ [Notified BeforeStop ''audit'']
   \<and> map fst (observers (snd (start calm demo))) = [''audit'']
   \<and> filter (notification AfterPrepare) (effects (snd (start calm demo))) =
       [Notified AfterPrepare ''audit'']
   \<and> filter (notification BeforeStart) (effects (snd (start calm demo))) =
       [Notified BeforeStart ''audit'']
   \<and> filter (notification AfterStart) (effects (snd (start calm demo))) =
       [Notified AfterStart ''audit'']"
proof -
  have h1: "fst (stop_prologue stubborn running) = Resolved" by code_simp
  have hk: "map fst (cat_hooks running) = [''audit'', ''metrics'']" by code_simp
  have ha: "on_event stubborn AfterStop ''audit'' = Resolved"
    "on_event stubborn AfterStop ''metrics'' = Resolved"
    by (simp_all add: stubborn_def calm_def)
  have h1': "\<forall>h\<in>fst ` set (cat_hooks running). on_event stubborn AfterStop h = Resolved"
    by (simp add: stubborn_def calm_def)
  have h2: "\<not> prepared demo" "observers demo = []" "distinct (map fst (cat_hooks demo))"
    by (simp_all add: demo_def)
  have h3: "fst (start calm demo) = Resolved" by code_simp
  have e2: "map (Notified BeforeStop) (delivered stubborn BeforeStop (observers running)) =
      [Notified BeforeStop ''audit'']"
    by code_simp
  have e3: "self_observers demo = [''audit'']"
    by (simp add: self_observers_def demo_def plain_def)
  have e4: "effects demo = []" by (simp add: demo_def)
  note t1 = after_stop_reaches_every_hook [of stubborn running]
  note t2 = after_stop_reaches_every_hook [of calm demo]
  from t1 h1 h1' have c1: "filter (notification AfterStop) (effects (snd (stop stubborn running))) =
        filter (notification AfterStop) (effects running)
        @ map (Notified AfterStop) (map fst (cat_hooks running))"
    by blast
  note c2 = t1 [THEN conjunct2, THEN conjunct1, unfolded e2]
  from t2 h2 h3 have c3: "map fst (observers (snd (start calm demo))) = self_observers demo
      \<and> (\<forall>ev\<in>{AfterPrepare, BeforeStart, AfterStart}.
           filter (notification ev) (effects (snd (start calm demo))) =
             filter (notification ev) (effects demo) @ map (Notified ev) (self_observers demo))"
    by blast
  show ?thesis
    using h1 hk ha h2 h3 c1 c2 c3 e3 e4 by simp
qed

subsection \<open>start on a started orchestrator\<close>



subsection \<open>stop in any state\<close>



end
